theory Spec2Isabelle
  imports Main
begin

section \<open>Python values and the object store\<close>

text \<open>
  The module \<^verbatim>\<open>scrapegraphai/graphs/json_scraper_multi_graph.py\<close> passes Python
  objects around by reference: the configuration dictionary, the source list and the
  schema are shared with the caller unless they are copied. A value is therefore an
  immutable atom or a reference into a store of objects. The objects are dictionaries,
  lists and classes; a class has a name and attributes, and like every object it is
  reached through a reference.
\<close>

type_synonym addr = nat

datatype pyval =
    PNone
  | PBool bool
  | PInt int
  | PStr string
  | PRef addr

datatype pyobj =
    PDict "(string \<times> pyval) list"
  | PList "pyval list"
  | PClass string "(string \<times> pyval) list"

text \<open>The store: the object at address \<open>a\<close> is \<open>h ! a\<close>; a new object is appended.\<close>

type_synonym heap = "pyobj list"

datatype error =
    AttributeError
  | KeyError
  | TypeError
  | RecursionError
  | InvalidRef
  | Raised string

text \<open>
  \<^verbatim>\<open>d.get(key, default)\<close>: defined on dictionaries only; any other receiver has no
  attribute \<^verbatim>\<open>get\<close>. \<open>InvalidRef\<close> is the model's answer on an address outside the
  store, which no Python program can hold.
\<close>

definition dict_get :: "heap \<Rightarrow> pyval \<Rightarrow> string \<Rightarrow> pyval \<Rightarrow> error + pyval" where
  "dict_get h d key dflt =
     (case d of
        PRef a \<Rightarrow>
          (if a < length h then
             (case h ! a of
                PDict kvs \<Rightarrow> Inr (case map_of kvs key of Some v \<Rightarrow> v | None \<Rightarrow> dflt)
              | PList vs \<Rightarrow> Inl AttributeError
              | PClass c ats \<Rightarrow> Inl AttributeError)
           else Inl InvalidRef)
      | _ \<Rightarrow> Inl AttributeError)"

text \<open>
  The entries of the dictionary a value refers to, if it refers to one, and the members
  of the list a value refers to, if it refers to one.
\<close>

definition pydict :: "heap \<Rightarrow> pyval \<Rightarrow> (string \<times> pyval) list option" where
  "pydict h d =
     (case d of
        PRef a \<Rightarrow>
          (if a < length h then
             (case h ! a of
                PDict kvs \<Rightarrow> Some kvs
              | PList vs \<Rightarrow> None
              | PClass c ats \<Rightarrow> None)
           else None)
      | _ \<Rightarrow> None)"

definition pylist :: "heap \<Rightarrow> pyval \<Rightarrow> pyval list option" where
  "pylist h d =
     (case d of
        PRef a \<Rightarrow>
          (if a < length h then
             (case h ! a of
                PDict kvs \<Rightarrow> None
              | PList vs \<Rightarrow> Some vs
              | PClass c ats \<Rightarrow> None)
           else None)
      | _ \<Rightarrow> None)"

section \<open>Deep copies\<close>

text \<open>
  \<^verbatim>\<open>copy.deepcopy\<close> of the standard library, on the values above. An atom is returned
  as it is, and so is a class: the copy holds the reference to the very same class
  object. A dictionary or a list is copied once: the first time it is reached a new,
  empty object is allocated and entered into the memo table under the address of the
  original, then the copies of the members are added to it from left to right; when
  the original is reached again, through a cycle or a second reference, the memo table
  answers with the copy already made.

  \<open>members\<close> are the values an object holds, in order; \<open>rebuild x vs\<close> is an object
  of the kind and with the keys of \<open>x\<close> that holds the values \<open>vs\<close> (as many as there
  are), so that \<open>rebuild x []\<close> is the empty dictionary or list.
\<close>

type_synonym memo = "addr \<rightharpoonup> addr"

definition members :: "pyobj \<Rightarrow> pyval list" where
  "members x =
     (case x of PDict kvs \<Rightarrow> map snd kvs | PList vs \<Rightarrow> vs | PClass c ats \<Rightarrow> map snd ats)"

definition rebuild :: "pyobj \<Rightarrow> pyval list \<Rightarrow> pyobj" where
  "rebuild x vs =
     (case x of
        PDict kvs \<Rightarrow> PDict (zip (map fst kvs) vs)
      | PList ws \<Rightarrow> PList vs
      | PClass c ats \<Rightarrow> PClass c (zip (map fst ats) vs))"

text \<open>
  The loop over the members of the original \<open>x\<close>, whose copy is at address \<open>y\<close>:
  each member is copied by \<open>f\<close> and its copy is added to the object at \<open>y\<close>.
\<close>

primrec copy_members ::
  "(heap \<times> memo \<Rightarrow> pyval \<Rightarrow> error + pyval \<times> heap \<times> memo) \<Rightarrow> pyobj \<Rightarrow> addr \<Rightarrow>
     heap \<times> memo \<Rightarrow> pyval list \<Rightarrow> error + heap \<times> memo" where
  "copy_members f x y s [] = Inr s"
| "copy_members f x y s (v # vs) =
     (case f s v of
        Inl e \<Rightarrow> Inl e
      | Inr (v', h, m) \<Rightarrow>
          copy_members f x y (h[y := rebuild x (members (h ! y) @ [v'])], m) vs)"

text \<open>
  The recursion of \<^verbatim>\<open>deepcopy\<close>, with the store and the memo table as state. The first
  argument bounds the nesting of calls; it is what makes the recursion a definition.
\<close>

primrec deepcopy_rec ::
  "nat \<Rightarrow> heap \<times> memo \<Rightarrow> pyval \<Rightarrow> error + pyval \<times> heap \<times> memo" where
  "deepcopy_rec 0 s v = (case v of PRef a \<Rightarrow> Inl RecursionError | _ \<Rightarrow> Inr (v, s))"
| "deepcopy_rec (Suc n) s v =
     (case v of
        PRef a \<Rightarrow>
          (case s of
             (h, m) \<Rightarrow>
               (case m a of
                  Some y \<Rightarrow> Inr (PRef y, h, m)
                | None \<Rightarrow>
                    (if a < length h then
                       (case h ! a of
                          PClass c ats \<Rightarrow> Inr (PRef a, h, m)
                        | x \<Rightarrow>
                            (case copy_members (deepcopy_rec n) x (length h)
                                    (h @ [rebuild x []], m(a \<mapsto> length h)) (members x) of
                               Inl e \<Rightarrow> Inl e
                             | Inr (h', m') \<Rightarrow> Inr (PRef (length h), h', m')))
                     else Inl InvalidRef)))
      | _ \<Rightarrow> Inr (v, s))"

text \<open>
  \<^verbatim>\<open>deepcopy(x)\<close> starts with an empty memo table. Every nested call on an object
  that is not copied yet enters it into the memo table first, so the calls nest no
  deeper than there are objects in the store: the bound given here is never reached in
  a store without dangling references (lemma \<open>deepcopy_correct\<close>). The recursion limit
  of the interpreter, a resource bound, is not modelled.
\<close>

definition deepcopy :: "heap \<Rightarrow> pyval \<Rightarrow> error + pyval \<times> heap" where
  "deepcopy h v =
     (case deepcopy_rec (Suc (length h)) (h, Map.empty) v of
        Inl e \<Rightarrow> Inl e
      | Inr (v', h', m) \<Rightarrow> Inr (v', h'))"

text \<open>
  Modelled from the spec: \<^verbatim>\<open>safe_deepcopy\<close> of \<^verbatim>\<open>scrapegraphai/utils/copy.py\<close>, a
  file that is not part of the sources. The specification calls what the constructor does
  with the configuration a deep copy, so it is the deep copy above.
\<close>

definition safe_deepcopy :: "heap \<Rightarrow> pyval \<Rightarrow> error + pyval \<times> heap" where
  "safe_deepcopy h v = deepcopy h v"

subsection \<open>Stores without dangling references\<close>

definition closed_val :: "nat \<Rightarrow> pyval \<Rightarrow> bool" where
  "closed_val n v = (case v of PRef a \<Rightarrow> a < n | _ \<Rightarrow> True)"

definition closed_store :: "heap \<Rightarrow> bool" where
  "closed_store h = (\<forall>x \<in> set h. \<forall>v \<in> set (members x). closed_val (length h) v)"

subsection \<open>What a copy is\<close>

text \<open>
  A memo table \<open>m\<close> renames values: a reference to a copied object becomes the
  reference to its copy, every other value stays. \<open>covered h0 m v\<close>: the value \<open>v\<close> of
  the store \<open>h0\<close> is an atom, a reference to a copied object or a reference to a class.

  \<open>mirrors h0 t m\<close>: in the store \<open>t\<close>, every object of \<open>h0\<close> that \<open>m\<close> lists has
  exactly one copy, a dictionary or list at an address that \<open>h0\<close> does not have, and
  the members of the copy are the renamed members of the original. So a member shared
  in the original is shared in the copy, and a cycle of the original is a cycle of the
  copy.
\<close>

definition is_class :: "pyobj \<Rightarrow> bool" where
  "is_class x = (case x of PClass c ats \<Rightarrow> True | _ \<Rightarrow> False)"

definition rename :: "memo \<Rightarrow> pyval \<Rightarrow> pyval" where
  "rename m v = (case v of PRef a \<Rightarrow> (case m a of Some y \<Rightarrow> PRef y | None \<Rightarrow> v) | _ \<Rightarrow> v)"

definition covered :: "heap \<Rightarrow> memo \<Rightarrow> pyval \<Rightarrow> bool" where
  "covered h0 m v =
     (case v of
        PRef a \<Rightarrow> a < length h0 \<and> (m a \<noteq> None \<or> is_class (h0 ! a))
      | _ \<Rightarrow> True)"

definition mirrors :: "heap \<Rightarrow> heap \<Rightarrow> memo \<Rightarrow> bool" where
  "mirrors h0 t m =
     (\<forall>a y. m a = Some y \<longrightarrow>
        a < length h0 \<and> length h0 \<le> y \<and> y < length t \<and> \<not> is_class (h0 ! a) \<and>
        t ! y = rebuild (h0 ! a) (map (rename m) (members (h0 ! a))) \<and>
        (\<forall>v \<in> set (members (h0 ! a)). covered h0 m v))"

text \<open>
  What a value looks like to a reader who follows the references, \<open>n\<close> objects deep.
  A class shows as its address and name: the reader sees which class object it is and
  does not look into it. Two values are structurally equal when they unfold to the same
  tree at every depth.
\<close>

datatype tree =
    TNone
  | TBool bool
  | TInt int
  | TStr string
  | TDict "(string \<times> tree) list"
  | TList "tree list"
  | TClass addr string
  | TCut
  | TInvalid

primrec unfold :: "nat \<Rightarrow> heap \<Rightarrow> pyval \<Rightarrow> tree" where
  "unfold 0 h v =
     (case v of
        PNone \<Rightarrow> TNone
      | PBool b \<Rightarrow> TBool b
      | PInt i \<Rightarrow> TInt i
      | PStr s \<Rightarrow> TStr s
      | PRef a \<Rightarrow> TCut)"
| "unfold (Suc n) h v =
     (case v of
        PNone \<Rightarrow> TNone
      | PBool b \<Rightarrow> TBool b
      | PInt i \<Rightarrow> TInt i
      | PStr s \<Rightarrow> TStr s
      | PRef a \<Rightarrow>
          (if a < length h then
             (case h ! a of
                PDict kvs \<Rightarrow> TDict (zip (map fst kvs) (map (unfold n h) (map snd kvs)))
              | PList vs \<Rightarrow> TList (map (unfold n h) vs)
              | PClass c ats \<Rightarrow> TClass a c)
           else TInvalid))"

text \<open>
  \<open>keeps_classes h g\<close>: the store \<open>g\<close> is what a caller can turn \<open>h\<close> into by
  changing its objects at will, as long as each class stays the class it is (its
  attributes may change).
\<close>

definition keeps_classes :: "heap \<Rightarrow> heap \<Rightarrow> bool" where
  "keeps_classes h g =
     (length g = length h \<and>
      (\<forall>b < length h. \<forall>c ats. h ! b = PClass c ats \<longrightarrow> (\<exists>ats'. g ! b = PClass c ats')))"

text \<open>
  \<open>copied h v v'\<close>: \<open>v'\<close> can be the deep copy of \<open>v\<close> made in the store \<open>h\<close>:
  \<open>v\<close> itself when \<open>v\<close> is an atom or refers to a class, and otherwise a reference
  to an object that \<open>h\<close> does not have.
\<close>

definition copied :: "heap \<Rightarrow> pyval \<Rightarrow> pyval \<Rightarrow> bool" where
  "copied h v v' =
     (case v of
        PRef a \<Rightarrow>
          (if is_class (h ! a) then v' = v
           else (case v' of PRef a' \<Rightarrow> length h \<le> a' | _ \<Rightarrow> False))
      | _ \<Rightarrow> v' = v)"

subsection \<open>The state of a copy in progress\<close>

text \<open>
  While a copy is being made the memo table lists originals of \<open>h0\<close> only, never a
  class, each with a copy of its own among the new objects, and every new object is
  such a copy. \<open>copied_at\<close>: the copy of \<open>a\<close> is complete. \<open>copy_post\<close>: what a call
  that started in the state \<open>(h, m)\<close> leaves in the state \<open>(h', m')\<close>.
\<close>

definition memo_ok :: "heap \<Rightarrow> heap \<Rightarrow> memo \<Rightarrow> bool" where
  "memo_ok h0 h m =
     ((\<forall>a y. m a = Some y \<longrightarrow>
         a < length h0 \<and> length h0 \<le> y \<and> y < length h \<and> \<not> is_class (h0 ! a)) \<and>
      (\<forall>y. length h0 \<le> y \<and> y < length h \<longrightarrow> (\<exists>a. m a = Some y)))"

definition copied_at :: "heap \<Rightarrow> heap \<Rightarrow> memo \<Rightarrow> addr \<Rightarrow> bool" where
  "copied_at h0 h m a =
     (\<exists>y. m a = Some y \<and>
          h ! y = rebuild (h0 ! a) (map (rename m) (members (h0 ! a))) \<and>
          (\<forall>v \<in> set (members (h0 ! a)). covered h0 m v))"

definition copy_post :: "heap \<Rightarrow> heap \<Rightarrow> memo \<Rightarrow> heap \<Rightarrow> memo \<Rightarrow> bool" where
  "copy_post h0 h m h' m' =
     (take (length h0) h' = h0 \<and> length h \<le> length h' \<and> memo_ok h0 h' m' \<and> m \<subseteq>\<^sub>m m' \<and>
      (\<forall>a y. m a = None \<longrightarrow> m' a = Some y \<longrightarrow> length h \<le> y \<and> copied_at h0 h' m' a))"

definition unmemo :: "nat \<Rightarrow> memo \<Rightarrow> addr set" where
  "unmemo n m = {a. a < n \<and> m a = None}"

section \<open>Nodes and graphs\<close>

text \<open>
  Modelled from the spec: \<^verbatim>\<open>GraphIteratorNode\<close>, \<^verbatim>\<open>MergeAnswersNode\<close> and
  \<^verbatim>\<open>BaseGraph\<close> are classes of the framework whose files are not part of the
  sources. A node and a graph are the records of the arguments their constructors are
  called with; \<open>schema_arg\<close> is \<open>None\<close> when the keyword \<^verbatim>\<open>schema\<close> is not passed.
\<close>

record node =
  node_class :: string
  node_input :: string
  node_output :: "string list"
  node_config :: "(string \<times> pyval) list"
  schema_arg :: "pyval option"

record base_graph =
  nodes :: "node list"
  edges :: "(node \<times> node) list"
  entry_point :: node
  graph_name :: string

section \<open>The class JSONScraperMultiGraph\<close>

text \<open>
  The attributes of an instance. \<open>max_results\<close>, \<open>copy_config\<close> and \<open>copy_schema\<close> are
  assigned by the constructor of the class itself; the others by the constructor of
  \<^verbatim>\<open>AbstractGraph\<close>. \<open>graph\<close> is \<open>None\<close> as long as the attribute is not set.
\<close>

record json_scraper_multi_graph =
  max_results :: pyval
  copy_config :: pyval
  copy_schema :: pyval
  prompt :: pyval
  source :: pyval
  config :: pyval
  schema :: pyval
  llm_model :: pyval
  graph :: "base_graph option"
  final_state :: pyval
  execution_info :: pyval

text \<open>\<^verbatim>\<open>self.__class__.__name__\<close> for an instance of this class.\<close>

definition class_name :: "json_scraper_multi_graph \<Rightarrow> string" where
  "class_name self = ''JSONScraperMultiGraph''"

text \<open>
  \<^verbatim>\<open>_create_graph\<close>, lines 56 to 100. The name \<^verbatim>\<open>JSONScraperGraph\<close>, imported in
  line 10, stands for a class object; the file that defines it is not part of the
  sources, so the reference to it is a parameter, \<open>JSONScraperGraph\<close>.
\<close>

definition graph_iterator_node :: "pyval \<Rightarrow> json_scraper_multi_graph \<Rightarrow> node" where
  "graph_iterator_node JSONScraperGraph self =
     \<lparr> node_class = ''GraphIteratorNode'',
       node_input = ''user_prompt & jsons'',
       node_output = [''results''],
       node_config =
         [(''graph_instance'', JSONScraperGraph),
          (''scraper_config'', copy_config self)],
       schema_arg = Some (copy_schema self) \<rparr>"

definition merge_answers_node :: "json_scraper_multi_graph \<Rightarrow> node" where
  "merge_answers_node self =
     \<lparr> node_class = ''MergeAnswersNode'',
       node_input = ''user_prompt & results'',
       node_output = [''answer''],
       node_config =
         [(''llm_model'', llm_model self),
          (''schema'', copy_schema self)],
       schema_arg = None \<rparr>"

definition create_graph :: "pyval \<Rightarrow> json_scraper_multi_graph \<Rightarrow> base_graph" where
  "create_graph JSONScraperGraph self =
     \<lparr> nodes = [graph_iterator_node JSONScraperGraph self, merge_answers_node self],
       edges = [(graph_iterator_node JSONScraperGraph self, merge_answers_node self)],
       entry_point = graph_iterator_node JSONScraperGraph self,
       graph_name = class_name self \<rparr>"

section \<open>The execution engine and run\<close>

text \<open>
  \<^verbatim>\<open>BaseGraph.execute\<close> is external. It is a parameter: a function of its own state
  \<open>'e\<close>, the store, the graph and the input mapping, which either raises or returns the
  pair of final state and execution information, together with its new state and the
  store it leaves behind.
\<close>

type_synonym 'e engine =
  "'e \<Rightarrow> heap \<Rightarrow> base_graph \<Rightarrow> pyval \<Rightarrow> (error + pyval \<times> pyval) \<times> 'e \<times> heap"

text \<open>Line 109: the dictionary literal bound to \<^verbatim>\<open>inputs\<close>.\<close>

definition run_inputs :: "json_scraper_multi_graph \<Rightarrow> pyobj" where
  "run_inputs self = PDict [(''user_prompt'', prompt self), (''jsons'', source self)]"

text \<open>
  \<^verbatim>\<open>run\<close>, lines 102 to 112. The result is the returned value or the raised error,
  the object as \<^verbatim>\<open>run\<close> leaves it, the engine's state and the store.
\<close>

definition run ::
  "'e engine \<Rightarrow> 'e \<Rightarrow> heap \<Rightarrow> json_scraper_multi_graph \<Rightarrow>
     (error + pyval) \<times> json_scraper_multi_graph \<times> 'e \<times> heap" where
  "run execute es h self =
     (let h1 = h @ [run_inputs self];
          inputs = PRef (length h)
      in case graph self of
           None \<Rightarrow> (Inl AttributeError, self, es, h1)
         | Some g \<Rightarrow>
             (case execute es h1 g inputs of
                (Inl e, es', h2) \<Rightarrow> (Inl e, self, es', h2)
              | (Inr (fs, ei), es', h2) \<Rightarrow>
                  (dict_get h2 fs ''answer'' (PStr ''No answer found.''),
                   self\<lparr> final_state := fs, execution_info := ei \<rparr>, es', h2)))"

section \<open>The constructor\<close>

text \<open>
  An instance before its constructor has run. An attribute that is not assigned yet
  shows as \<open>PNone\<close> (\<open>graph\<close> as \<open>None\<close>); the constructor reads no attribute before
  it is assigned.
\<close>

definition new_object :: json_scraper_multi_graph where
  "new_object =
     \<lparr> max_results = PNone, copy_config = PNone, copy_schema = PNone,
       prompt = PNone, source = PNone, config = PNone, schema = PNone,
       llm_model = PNone, graph = None, final_state = PNone, execution_info = PNone \<rparr>"

text \<open>
  Modelled from the spec: \<^verbatim>\<open>AbstractGraph.__init__\<close> of
  \<^verbatim>\<open>scrapegraphai/graphs/abstract_graph.py\<close>, a file that is not part of the sources.
  It stores the prompt, the configuration, the source and the schema it is given, keeps
  the language-model handle it builds from the configuration (\<open>llm\<close>, a parameter,
  since how it is built is not in the sources) and builds the graph with the method
  \<^verbatim>\<open>_create_graph\<close> of the instance's class (\<open>create\<close>).
\<close>

definition abstract_graph_init ::
  "pyval \<Rightarrow> (json_scraper_multi_graph \<Rightarrow> base_graph) \<Rightarrow> json_scraper_multi_graph \<Rightarrow>
     pyval \<Rightarrow> pyval \<Rightarrow> pyval \<Rightarrow> pyval \<Rightarrow> json_scraper_multi_graph" where
  "abstract_graph_init llm create self p cfg src sch =
     (let self1 = self\<lparr> prompt := p, source := src, config := cfg, schema := sch,
                        llm_model := llm \<rparr>
      in self1\<lparr> graph := Some (create self1),
                final_state := PNone, execution_info := PNone \<rparr>)"

text \<open>
  \<^verbatim>\<open>__init__\<close>, lines 45 to 54, called with the prompt \<open>p\<close>, the source \<open>src\<close>, the
  configuration \<open>cfg\<close> and the schema \<open>sch\<close> in the store \<open>h\<close>.
\<close>

definition init ::
  "pyval \<Rightarrow> pyval \<Rightarrow> heap \<Rightarrow> pyval \<Rightarrow> pyval \<Rightarrow> pyval \<Rightarrow> pyval \<Rightarrow>
     error + json_scraper_multi_graph \<times> heap" where
  "init JSONScraperGraph llm h p src cfg sch =
     (case dict_get h cfg ''max_results'' (PInt 3) of
        Inl e \<Rightarrow> Inl e
      | Inr mr \<Rightarrow>
          (case safe_deepcopy h cfg of
             Inl e \<Rightarrow> Inl e
           | Inr (cc, h1) \<Rightarrow>
               (case deepcopy h1 sch of
                  Inl e \<Rightarrow> Inl e
                | Inr (cs, h2) \<Rightarrow>
                    Inr (abstract_graph_init llm (create_graph JSONScraperGraph)
                           (new_object\<lparr> max_results := mr, copy_config := cc,
                                        copy_schema := cs \<rparr>)
                           p cfg src sch,
                         h2))))"

section \<open>Reading a node's wiring\<close>

text \<open>
  Modelled from the spec: the input expression of a node names the keys of the state it
  consumes, joined by \<^verbatim>\<open>&\<close>; the node classes that read it are not part of the
  sources.
\<close>

primrec split_on :: "char \<Rightarrow> string \<Rightarrow> string list" where
  "split_on c [] = [[]]"
| "split_on c (x # xs) =
     (if x = c then [] # split_on c xs
      else (case split_on c xs of
              [] \<Rightarrow> [[x]]
            | w # ws \<Rightarrow> (x # w) # ws))"

definition strip :: "string \<Rightarrow> string" where
  "strip s =
     rev (dropWhile (\<lambda>c. c = CHR '' '') (rev (dropWhile (\<lambda>c. c = CHR '' '') s)))"

definition input_keys :: "string \<Rightarrow> string list" where
  "input_keys e = map strip (split_on CHR ''&'' e)"

text \<open>The keys of a dictionary, and the values a node is constructed with.\<close>

definition dict_keys :: "pyobj \<Rightarrow> string list" where
  "dict_keys ob =
     (case ob of PDict kvs \<Rightarrow> map fst kvs | PList vs \<Rightarrow> [] | PClass c ats \<Rightarrow> [])"

definition node_values :: "node \<Rightarrow> pyval list" where
  "node_values nd =
     map snd (node_config nd) @ (case schema_arg nd of None \<Rightarrow> [] | Some s \<Rightarrow> [s])"

section \<open>The pipeline the specification describes\<close>

text \<open>
  Modelled from the spec: the execution engine and what the two node classes do, none
  of which is part of the sources. The specification: given a user prompt and a list
  of JSON-document sources, the pipeline fans the prompt and each source out to a
  per-document answering sub-pipeline, then merges the per-document answers into one
  final answer; the engine is handed an input mapping and hands back a result mapping.

  What the sub-pipeline answers for one document and how the answers are merged are
  parameters: \<open>scrape\<close> is given the graph class, the configuration and the schema of
  the iterator node, the prompt and a source; \<open>merge\<close> is given the language model and
  the schema of the merge node, the prompt and the list of answers.

  A node reads the keys its input expression names from the state, in order, and
  stores what it computes under its output key; it raises \<^verbatim>\<open>KeyError\<close> when a key or
  an entry of its configuration is missing. The engine starts at the entry point and
  follows the edges until a node has no successor; it visits at most as many nodes as
  the graph has.
\<close>

type_synonym scraper = "pyval \<Rightarrow> pyval \<Rightarrow> pyval \<Rightarrow> pyval \<Rightarrow> pyval \<Rightarrow> pyval"

type_synonym merger = "pyval \<Rightarrow> pyval \<Rightarrow> pyval \<Rightarrow> pyval list \<Rightarrow> pyval"

definition dict_set :: "string \<Rightarrow> pyval \<Rightarrow> (string \<times> pyval) list \<Rightarrow> (string \<times> pyval) list" where
  "dict_set k v kvs =
     (if k \<in> fst ` set kvs
      then map (\<lambda>(k', v'). if k' = k then (k', v) else (k', v')) kvs
      else kvs @ [(k, v)])"

definition execute_node ::
  "scraper \<Rightarrow> merger \<Rightarrow> node \<Rightarrow> heap \<Rightarrow> (string \<times> pyval) list \<Rightarrow>
     error + (string \<times> pyval) list \<times> heap" where
  "execute_node scrape merge nd h st =
     (case (those (map (map_of st) (input_keys (node_input nd))), node_output nd) of
        (Some [p, xs], [out]) \<Rightarrow>
          (if node_class nd = ''GraphIteratorNode'' then
             (case (map_of (node_config nd) ''graph_instance'',
                    map_of (node_config nd) ''scraper_config'',
                    schema_arg nd, pylist h xs) of
                (Some gi, Some cfg, Some sch, Some sources) \<Rightarrow>
                  Inr (dict_set out (PRef (length h)) st,
                       h @ [PList (map (scrape gi cfg sch p) sources)])
              | _ \<Rightarrow> Inl KeyError)
           else if node_class nd = ''MergeAnswersNode'' then
             (case (map_of (node_config nd) ''llm_model'',
                    map_of (node_config nd) ''schema'', pylist h xs) of
                (Some llm, Some sch, Some answers) \<Rightarrow>
                  Inr (dict_set out (merge llm sch p answers) st, h)
              | _ \<Rightarrow> Inl KeyError)
           else Inl (Raised ''unknown node''))
      | _ \<Rightarrow> Inl KeyError)"

primrec execute_from ::
  "scraper \<Rightarrow> merger \<Rightarrow> base_graph \<Rightarrow> nat \<Rightarrow> node \<Rightarrow> heap \<Rightarrow> (string \<times> pyval) list \<Rightarrow>
     error + (string \<times> pyval) list \<times> heap" where
  "execute_from scrape merge g 0 nd h st = Inl (Raised ''the graph has a cycle'')"
| "execute_from scrape merge g (Suc k) nd h st =
     (case execute_node scrape merge nd h st of
        Inl e \<Rightarrow> Inl e
      | Inr (st', h') \<Rightarrow>
          (case map_of (edges g) nd of
             None \<Rightarrow> Inr (st', h')
           | Some next_node \<Rightarrow> execute_from scrape merge g k next_node h' st'))"

definition graph_engine :: "scraper \<Rightarrow> merger \<Rightarrow> 'e engine" where
  "graph_engine scrape merge =
     (\<lambda>es h g inputs.
        case pydict h inputs of
          None \<Rightarrow> (Inl TypeError, es, h)
        | Some st \<Rightarrow>
            (case execute_from scrape merge g (length (nodes g)) (entry_point g) h st of
               Inl e \<Rightarrow> (Inl e, es, h)
             | Inr (st', h') \<Rightarrow>
                 (Inr (PRef (length h'), PRef (Suc (length h'))), es,
                  h' @ [PDict st', PList []])))"

section \<open>Observing the engine\<close>

text \<open>
  An engine that behaves as \<open>execute\<close> does and also records every call it receives:
  the graph, the input mapping and the store at the time of the call.
\<close>

definition logged ::
  "'e engine \<Rightarrow> ('e \<times> (base_graph \<times> pyval \<times> heap) list) engine" where
  "logged execute =
     (\<lambda>(es, calls) h g inputs.
        case execute es h g inputs of
          (r, es', h') \<Rightarrow> (r, (es', calls @ [(g, inputs, h)]), h'))"

text \<open>The calls an observed engine has recorded, from the result of \<open>run\<close>.\<close>

definition calls_of :: "'r \<times> 's \<times> ('e \<times> 'c) \<times> 'h \<Rightarrow> 'c" where
  "calls_of r = snd (fst (snd (snd r)))"

text \<open>
  Two engines to run the class on. The first one answers with a final state that has
  the given entries. The second one raises on its first call and would answer on a
  second call.
\<close>

definition answering :: "(string \<times> pyval) list \<Rightarrow> unit engine" where
  "answering kvs =
     (\<lambda>es h g inputs.
        (Inr (PRef (length h), PRef (Suc (length h))), es, h @ [PDict kvs, PList []]))"

definition flaky :: "nat engine" where
  "flaky =
     (\<lambda>n h g inputs.
        if n = 0 then (Inl (Raised ''timeout''), Suc n, h)
        else (Inr (PRef (length h), PRef (Suc (length h))), Suc n,
              h @ [PDict [(''answer'', PStr ''done'')], PList []]))"

text \<open>
  A sub-pipeline that answers with the source it is given, and a merge that counts the
  answers.
\<close>

definition echo_scraper :: scraper where
  "echo_scraper gi cfg sch p s = s"

definition counting_merger :: merger where
  "counting_merger llm sch p answers = PInt (int (length answers))"

section \<open>A caller\<close>

text \<open>
  A caller's store. Object 0 is the class \<^verbatim>\<open>JSONScraperGraph\<close>. Object 2 is a schema
  class, with a list (object 1) hanging off it. Object 4 is the configuration: it
  holds the language-model dictionary (object 3) under two keys, that dictionary
  refers back to the configuration, and the configuration also holds the schema class.
  Object 5 is the list of sources, object 6 a schema given as a dictionary.
\<close>

definition caller_store :: heap where
  "caller_store =
     [PClass ''JSONScraperGraph'' [],
      PList [PStr ''city''],
      PClass ''Answer'' [(''fields'', PRef 1)],
      PDict [(''model'', PStr ''m''), (''owner'', PRef 4)],
      PDict [(''llm'', PRef 3), (''fallback'', PRef 3), (''max_results'', PInt 5),
             (''output'', PRef 2)],
      PList [PStr ''a.json'', PStr ''b.json''],
      PDict [(''type'', PStr ''object''), (''fields'', PRef 1)]]"

text \<open>
  The instance that caller constructs with the prompt \<^verbatim>\<open>q\<close>, its list of sources,
  its configuration, the schema class and the language-model handle \<^verbatim>\<open>gpt\<close>, and the
  store after the construction (lemma \<open>example_init\<close>).
\<close>

definition example_self :: json_scraper_multi_graph where
  "example_self =
     abstract_graph_init (PStr ''gpt'') (create_graph (PRef 0))
       (new_object\<lparr> max_results := PInt 5, copy_config := PRef 7, copy_schema := PRef 2 \<rparr>)
       (PStr ''q'') (PRef 4) (PRef 5) (PRef 2)"

definition example_store :: heap where
  "example_store =
     caller_store @
     [PDict [(''llm'', PRef 8), (''fallback'', PRef 8), (''max_results'', PInt 5),
             (''output'', PRef 2)],
      PDict [(''model'', PStr ''m''), (''owner'', PRef 7)]]"



text \<open>
  The instance the same caller gets when the base class keeps the caller's own
  language-model dictionary, object 3 of the store, as \<^verbatim>\<open>llm_model\<close> (the class
  comment describes \<^verbatim>\<open>llm_model\<close> as the configuration for the language model).
\<close>

definition sharing_self :: json_scraper_multi_graph where
  "sharing_self =
     abstract_graph_init (PRef 3) (create_graph (PRef 0))
       (new_object\<lparr> max_results := PInt 5, copy_config := PRef 7, copy_schema := PRef 2 \<rparr>)
       (PStr ''q'') (PRef 4) (PRef 5) (PRef 2)"

section \<open>The deep copy is correct\<close>

lemma rename_stable:
  assumes "covered h0 m v" "m \<subseteq>\<^sub>m m'" "memo_ok h0 h' m'"
  shows "rename m' v = rename m v"
proof (cases v)
  case (PRef a)
  show ?thesis
  proof (cases "m a")
    case None
    with assms(1) PRef have "is_class (h0 ! a)"
      by (simp add: covered_def)
    with assms(3) have "m' a = None"
      by (cases "m' a") (auto simp: memo_ok_def)
    with None PRef show ?thesis
      by (simp add: rename_def)
  next
    case (Some y)
    with assms(2) have "m' a = Some y"
      by (auto simp: map_le_def dom_def)
    with Some PRef show ?thesis
      by (simp add: rename_def)
  qed
qed (simp_all add: rename_def)

lemma covered_mono:
  assumes "covered h0 m v" "m \<subseteq>\<^sub>m m'"
  shows "covered h0 m' v"
proof (cases v)
  case (PRef a)
  with assms show ?thesis
    by (cases "m a") (auto simp: covered_def map_le_def dom_def)
qed (simp_all add: covered_def)

lemma copied_at_stable:
  assumes d: "copied_at h0 h m a" and le: "m \<subseteq>\<^sub>m m'" and ok: "memo_ok h0 h' m'"
    and same: "\<And>y. m a = Some y \<Longrightarrow> h' ! y = h ! y"
  shows "copied_at h0 h' m' a"
proof -
  from d obtain y where y: "m a = Some y" and
    ob: "h ! y = rebuild (h0 ! a) (map (rename m) (members (h0 ! a)))" and
    cov: "\<forall>v \<in> set (members (h0 ! a)). covered h0 m v"
    by (auto simp: copied_at_def)
  from y le have y': "m' a = Some y"
    by (auto simp: map_le_def dom_def)
  have eq: "map (rename m') (members (h0 ! a)) = map (rename m) (members (h0 ! a))"
    using cov by (auto intro: rename_stable [OF _ le ok])
  have "h' ! y = rebuild (h0 ! a) (map (rename m') (members (h0 ! a)))"
    unfolding eq using ob same [OF y] by simp
  moreover from cov have "\<forall>v \<in> set (members (h0 ! a)). covered h0 m' v"
    by (auto intro: covered_mono [OF _ le])
  ultimately show ?thesis
    using y' by (auto simp: copied_at_def)
qed

lemma members_rebuild:
  "length vs \<le> length (members x) \<Longrightarrow> members (rebuild x vs) = vs"
  by (cases x) (simp_all add: members_def rebuild_def map_snd_zip_take)

lemma finite_unmemo: "finite (unmemo n m)"
  by (simp add: unmemo_def)

lemma unmemo_mono: "m \<subseteq>\<^sub>m m' \<Longrightarrow> card (unmemo n m') \<le> card (unmemo n m)"
proof (rule card_mono [OF finite_unmemo])
  assume "m \<subseteq>\<^sub>m m'"
  then show "unmemo n m' \<subseteq> unmemo n m"
    by (auto simp: unmemo_def map_le_def dom_def)
qed

lemma unmemo_upd:
  assumes "a < n" "m a = None"
  shows "card (unmemo n (m(a \<mapsto> y))) < card (unmemo n m)"
proof (rule psubset_card_mono [OF finite_unmemo])
  from assms have "a \<in> unmemo n m" "a \<notin> unmemo n (m(a \<mapsto> y))"
    by (simp_all add: unmemo_def)
  moreover have "unmemo n (m(a \<mapsto> y)) \<subseteq> unmemo n m"
    by (auto simp: unmemo_def split: if_splits)
  ultimately show "unmemo n (m(a \<mapsto> y)) \<subset> unmemo n m"
    by blast
qed

lemma unmemo_empty: "card (unmemo n Map.empty) = n"
  by (simp add: unmemo_def)


lemma copy_post_refl:
  "take (length h0) h = h0 \<Longrightarrow> memo_ok h0 h m \<Longrightarrow> copy_post h0 h m h m"
  by (simp add: copy_post_def)

lemma prefix_length: "take (length h0) h = h0 \<Longrightarrow> length h0 \<le> length h"
  by (metis length_take min.cobounded1)

lemma prefix_nth: "take (length h0) h = h0 \<Longrightarrow> a < length h0 \<Longrightarrow> h ! a = h0 ! a"
  by (metis nth_take)

lemma copy_members_correct:
  assumes F: "\<And>h m v. take (length h0) h = h0 \<Longrightarrow> memo_ok h0 h m \<Longrightarrow>
              card (unmemo (length h0) m) < n \<Longrightarrow> closed_val (length h0) v \<Longrightarrow>
              \<exists>v' h' m'. f (h, m) v = Inr (v', h', m') \<and> copy_post h0 h m h' m' \<and>
                v' = rename m' v \<and> covered h0 m' v \<and> (\<forall>z < length h. h' ! z = h ! z)"
  shows "take (length h0) h = h0 \<Longrightarrow> memo_ok h0 h m \<Longrightarrow>
         card (unmemo (length h0) m) < n \<Longrightarrow> m a = Some y \<Longrightarrow>
         members (h0 ! a) = ds @ vs \<Longrightarrow>
         h ! y = rebuild (h0 ! a) (map (rename m) ds) \<Longrightarrow>
         \<forall>d \<in> set ds. covered h0 m d \<Longrightarrow>
         \<forall>v \<in> set vs. closed_val (length h0) v \<Longrightarrow>
         \<exists>h' m'. copy_members f (h0 ! a) y (h, m) vs = Inr (h', m') \<and>
           copy_post h0 h m h' m' \<and>
           h' ! y = rebuild (h0 ! a) (map (rename m') (ds @ vs)) \<and>
           (\<forall>d \<in> set (ds @ vs). covered h0 m' d) \<and>
           (\<forall>z < length h. z \<noteq> y \<longrightarrow> h' ! z = h ! z)"
proof (induction vs arbitrary: h m ds)
  case Nil
  then show ?case
    by (simp add: copy_post_refl)
next
  case (Cons v vs)
  let ?x = "h0 ! a"
  note pre = Cons.prems(1) and ok = Cons.prems(2) and fuel = Cons.prems(3)
    and my = Cons.prems(4) and mem = Cons.prems(5) and hy = Cons.prems(6)
    and cds = Cons.prems(7) and cl = Cons.prems(8)
  from ok my have y: "length h0 \<le> y" "y < length h"
    by (auto simp: memo_ok_def)
  from cl have clv: "closed_val (length h0) v"
    by simp
  from F [OF pre ok fuel clv] obtain v' h1 m1 where
    f: "f (h, m) v = Inr (v', h1, m1)" and
    post1: "copy_post h0 h m h1 m1" and
    v': "v' = rename m1 v" and cv: "covered h0 m1 v" and
    same1: "\<And>z. z < length h \<Longrightarrow> h1 ! z = h ! z"
    by blast
  from post1 have pre1: "take (length h0) h1 = h0" and len1: "length h \<le> length h1"
    and ok1: "memo_ok h0 h1 m1" and le1: "m \<subseteq>\<^sub>m m1"
    and new1: "\<And>b y'. m b = None \<Longrightarrow> m1 b = Some y' \<Longrightarrow>
                 length h \<le> y' \<and> copied_at h0 h1 m1 b"
    by (auto simp: copy_post_def)
  let ?h2 = "h1[y := rebuild ?x (members (h1 ! y) @ [v'])]"
  have ren: "map (rename m1) ds = map (rename m) ds"
    using cds by (auto intro: rename_stable [OF _ le1 ok1])
  have "length (map (rename m) ds) \<le> length (members ?x)"
    using mem by simp
  then have "members (h1 ! y) = map (rename m) ds"
    using same1 [OF y(2)] hy by (simp add: members_rebuild)
  then have h2y: "?h2 ! y = rebuild ?x (map (rename m1) (ds @ [v]))"
    using y len1 v' by (simp add: ren)
  have pre2: "take (length h0) ?h2 = h0"
    using pre1 y(1) by (simp add: take_update_cancel)
  have ok2: "memo_ok h0 ?h2 m1"
    using ok1 by (simp add: memo_ok_def)
  have fuel2: "card (unmemo (length h0) m1) < n"
    using unmemo_mono [OF le1, of "length h0"] fuel by simp
  from my le1 have my1: "m1 a = Some y"
    by (auto simp: map_le_def dom_def)
  have mem2: "members ?x = (ds @ [v]) @ vs"
    using mem by simp
  have cds2: "\<forall>d \<in> set (ds @ [v]). covered h0 m1 d"
    using cds cv by (auto intro: covered_mono [OF _ le1])
  from cl have cl2: "\<forall>v \<in> set vs. closed_val (length h0) v"
    by simp
  from Cons.IH [OF pre2 ok2 fuel2 my1 mem2 h2y cds2 cl2] obtain h' m' where
    cm: "copy_members f ?x y (?h2, m1) vs = Inr (h', m')" and
    post2: "copy_post h0 ?h2 m1 h' m'" and
    hy': "h' ! y = rebuild ?x (map (rename m') ((ds @ [v]) @ vs))" and
    call: "\<forall>d \<in> set ((ds @ [v]) @ vs). covered h0 m' d" and
    same2: "\<And>z. z < length ?h2 \<Longrightarrow> z \<noteq> y \<Longrightarrow> h' ! z = ?h2 ! z"
    by blast
  from post2 have pre': "take (length h0) h' = h0" and len2: "length ?h2 \<le> length h'"
    and ok': "memo_ok h0 h' m'" and le2: "m1 \<subseteq>\<^sub>m m'"
    and new2: "\<And>b y'. m1 b = None \<Longrightarrow> m' b = Some y' \<Longrightarrow>
                 length ?h2 \<le> y' \<and> copied_at h0 h' m' b"
    by (auto simp: copy_post_def)
  have same: "h' ! z = h ! z" if "z < length h" "z \<noteq> y" for z
    using same2 [of z] same1 [of z] that len1 by simp
  have new: "length h \<le> y' \<and> copied_at h0 h' m' b" if "m b = None" "m' b = Some y'" for b y'
  proof (cases "m1 b")
    case None
    from new2 [OF None that(2)] len1 show ?thesis
      by simp
  next
    case (Some y1)
    with le2 that(2) have eq: "y1 = y'"
      by (auto simp: map_le_def dom_def)
    from new1 [OF that(1) Some] have ge: "length h \<le> y1" and d1: "copied_at h0 h1 m1 b"
      by simp_all
    from ok1 Some have "y1 < length h1"
      by (auto simp: memo_ok_def)
    with ge y(2) have "h' ! y1 = h1 ! y1"
      using same2 [of y1] by simp
    with Some have "\<And>z. m1 b = Some z \<Longrightarrow> h' ! z = h1 ! z"
      by simp
    from copied_at_stable [OF d1 le2 ok' this] ge eq show ?thesis
      by simp
  qed
  have "copy_post h0 h m h' m'"
    unfolding copy_post_def
    using pre' len1 len2 ok' map_le_trans [OF le1 le2] new by auto
  moreover have "copy_members f ?x y (h, m) (v # vs) = Inr (h', m')"
    using f cm by simp
  ultimately show ?case
    using hy' call same by auto
qed


lemma closed_members:
  "closed_store h0 \<Longrightarrow> a < length h0 \<Longrightarrow> \<forall>v \<in> set (members (h0 ! a)). closed_val (length h0) v"
  by (auto simp: closed_store_def)

lemma deepcopy_rec_correct:
  assumes closed: "closed_store h0"
  shows "take (length h0) h = h0 \<Longrightarrow> memo_ok h0 h m \<Longrightarrow>
         card (unmemo (length h0) m) < n \<Longrightarrow> closed_val (length h0) v \<Longrightarrow>
         \<exists>v' h' m'. deepcopy_rec n (h, m) v = Inr (v', h', m') \<and> copy_post h0 h m h' m' \<and>
           v' = rename m' v \<and> covered h0 m' v \<and> (\<forall>z < length h. h' ! z = h ! z)"
proof (induction n arbitrary: h m v)
  case 0
  then show ?case by simp
next
  case (Suc n)
  note pre = Suc.prems(1) and ok = Suc.prems(2) and fuel = Suc.prems(3) and cl = Suc.prems(4)
  show ?case
  proof (cases v)
    case (PRef a)
    with cl have a: "a < length h0"
      by (simp add: closed_val_def)
    from prefix_length [OF pre] a have ah: "a < length h"
      by simp
    from prefix_nth [OF pre a] have ha: "h ! a = h0 ! a" .
    show ?thesis
    proof (cases "m a")
      case (Some y)
      then have "deepcopy_rec (Suc n) (h, m) v = Inr (PRef y, h, m)"
        using PRef by simp
      moreover have "PRef y = rename m v" "covered h0 m v"
        using Some PRef a by (simp_all add: rename_def covered_def)
      ultimately show ?thesis
        using copy_post_refl [OF pre ok] by auto
    next
      case None
      show ?thesis
      proof (cases "is_class (h0 ! a)")
        case True
        then have "deepcopy_rec (Suc n) (h, m) v = Inr (PRef a, h, m)"
          using PRef None ah ha by (cases "h0 ! a") (simp_all add: is_class_def)
        moreover have "PRef a = rename m v" "covered h0 m v"
          using None PRef a True by (simp_all add: rename_def covered_def)
        ultimately show ?thesis
          using copy_post_refl [OF pre ok] by auto
      next
        case False
        let ?x = "h0 ! a"
        let ?y = "length h"
        let ?h1 = "h @ [rebuild ?x []]"
        let ?m1 = "m(a \<mapsto> ?y)"
        have dc: "deepcopy_rec (Suc n) (h, m) v =
            (case copy_members (deepcopy_rec n) ?x ?y (?h1, ?m1) (members ?x) of
               Inl e \<Rightarrow> Inl e
             | Inr (h', m') \<Rightarrow> Inr (PRef ?y, h', m'))"
          using PRef None ah ha False by (cases "h0 ! a") (simp_all add: is_class_def)
        have pre1: "take (length h0) ?h1 = h0"
          using pre prefix_length [OF pre] by simp
        have ok1: "memo_ok h0 ?h1 ?m1"
        proof -
          have "\<exists>b. ?m1 b = Some y" if "length h0 \<le> y" "y < length ?h1" for y
          proof (cases "y = length h")
            case True
            then show ?thesis by auto
          next
            case False
            with that ok obtain b where b: "m b = Some y"
              by (auto simp: memo_ok_def less_Suc_eq)
            with None have "b \<noteq> a" by auto
            with b show ?thesis by auto
          qed
          moreover have "b < length h0 \<and> length h0 \<le> y \<and> y < length ?h1 \<and>
              \<not> is_class (h0 ! b)" if "?m1 b = Some y" for b y
            using that ok a False prefix_length [OF pre]
            by (cases "b = a") (auto simp: memo_ok_def less_Suc_eq)
          ultimately show ?thesis
            unfolding memo_ok_def by blast
        qed
        have fuel1: "card (unmemo (length h0) ?m1) < n"
          using unmemo_upd [where m = m and y = ?y, OF a None] fuel by simp
        have my: "?m1 a = Some ?y"
          by simp
        have mem: "members ?x = [] @ members ?x"
          by simp
        have hy: "?h1 ! ?y = rebuild ?x (map (rename ?m1) [])"
          by simp
        have cds: "\<forall>d \<in> set []. covered h0 ?m1 d"
          by simp
        have "\<exists>h' m'.
            copy_members (deepcopy_rec n) ?x ?y (?h1, ?m1) (members ?x) = Inr (h', m') \<and>
            copy_post h0 ?h1 ?m1 h' m' \<and>
            h' ! ?y = rebuild ?x (map (rename m') (members ?x)) \<and>
            (\<forall>d \<in> set (members ?x). covered h0 m' d) \<and>
            (\<forall>z < length ?h1. z \<noteq> ?y \<longrightarrow> h' ! z = ?h1 ! z)"
          using copy_members_correct [where f = "deepcopy_rec n" and n = n, OF Suc.IH
            pre1 ok1 fuel1 my mem hy cds closed_members [OF closed a]]
          by (simp only: append_Nil)
        then obtain h' m' where
          cm: "copy_members (deepcopy_rec n) ?x ?y (?h1, ?m1) (members ?x) = Inr (h', m')" and
          post1: "copy_post h0 ?h1 ?m1 h' m'" and
          hy': "h' ! ?y = rebuild ?x (map (rename m') (members ?x))" and
          call: "\<forall>d \<in> set (members ?x). covered h0 m' d" and
          same1: "\<And>z. z < length ?h1 \<Longrightarrow> z \<noteq> ?y \<Longrightarrow> h' ! z = ?h1 ! z"
          by blast
        from post1 have pre': "take (length h0) h' = h0" and len1: "length ?h1 \<le> length h'"
          and ok': "memo_ok h0 h' m'" and le1: "?m1 \<subseteq>\<^sub>m m'"
          and new1: "\<And>b y'. ?m1 b = None \<Longrightarrow> m' b = Some y' \<Longrightarrow>
                       length ?h1 \<le> y' \<and> copied_at h0 h' m' b"
          by (auto simp: copy_post_def)
        from le1 have m'a: "m' a = Some ?y"
          by (auto simp: map_le_def dom_def)
        have le: "m \<subseteq>\<^sub>m m'"
        proof -
          have "m \<subseteq>\<^sub>m ?m1"
            using None by (auto simp: map_le_def dom_def)
          then show ?thesis
            using le1 by (rule map_le_trans)
        qed
        have done_a: "copied_at h0 h' m' a"
          using m'a hy' call by (auto simp: copied_at_def)
        have new: "length h \<le> y' \<and> copied_at h0 h' m' b"
          if "m b = None" "m' b = Some y'" for b y'
        proof (cases "b = a")
          case True
          with that m'a done_a show ?thesis by simp
        next
          case False
          with that(1) have "?m1 b = None" by simp
          from new1 [OF this that(2)] show ?thesis by simp
        qed
        have post: "copy_post h0 h m h' m'"
          unfolding copy_post_def using pre' len1 ok' le new by auto
        have same: "h' ! z = h ! z" if "z < length h" for z
          using same1 [of z] that by (simp add: nth_append)
        have "deepcopy_rec (Suc n) (h, m) v = Inr (PRef ?y, h', m')"
          using dc cm by simp
        moreover have "PRef ?y = rename m' v" "covered h0 m' v"
          using m'a PRef a by (simp_all add: rename_def covered_def)
        ultimately show ?thesis
          using post same by auto
      qed
    qed
  qed (use copy_post_refl [OF pre ok] in \<open>simp_all add: rename_def covered_def\<close>)
qed

lemma unfold_mirrors:
  assumes mir: "mirrors h0 t m"
    and cls: "\<And>b c ats. b < length h0 \<Longrightarrow> h0 ! b = PClass c ats \<Longrightarrow>
                b < length t \<and> (\<exists>ats'. t ! b = PClass c ats')"
  shows "covered h0 m v \<Longrightarrow> unfold n t (rename m v) = unfold n h0 v"
proof (induction n arbitrary: v)
  case 0
  then show ?case
    by (cases v) (auto simp: rename_def split: option.splits)
next
  case (Suc n)
  show ?case
  proof (cases v)
    case (PRef a)
    with Suc.prems have a: "a < length h0"
      by (simp add: covered_def)
    show ?thesis
    proof (cases "m a")
      case None
      with Suc.prems PRef have "is_class (h0 ! a)"
        by (simp add: covered_def)
      then obtain c ats where c: "h0 ! a = PClass c ats"
        by (cases "h0 ! a") (auto simp: is_class_def)
      from cls [OF a c] obtain ats' where "a < length t" "t ! a = PClass c ats'"
        by blast
      with None PRef a c show ?thesis
        by (simp add: rename_def)
    next
      case (Some y)
      with mir have y: "y < length t" and nc: "\<not> is_class (h0 ! a)" and
        ty: "t ! y = rebuild (h0 ! a) (map (rename m) (members (h0 ! a)))" and
        cov: "\<forall>v \<in> set (members (h0 ! a)). covered h0 m v"
        by (auto simp: mirrors_def)
      have ih: "map (unfold n t) (map (rename m) (members (h0 ! a))) =
                map (unfold n h0) (members (h0 ! a))"
        using cov by (auto intro: Suc.IH)
      have "unfold (Suc n) t (PRef y) = unfold (Suc n) h0 (PRef a)"
      proof (cases "h0 ! a")
        case (PDict kvs)
        then have "t ! y = PDict (zip (map fst kvs) (map (rename m) (map snd kvs)))"
          using ty by (simp add: rebuild_def members_def)
        moreover have "map (unfold n t) (map (rename m) (map snd kvs)) =
            map (unfold n h0) (map snd kvs)"
          using ih PDict by (simp add: members_def)
        ultimately show ?thesis
          using y a PDict by (simp add: zip_map_fst_snd map_snd_zip del: map_map)
      next
        case (PList vs)
        then have "t ! y = PList (map (rename m) vs)"
          using ty by (simp add: rebuild_def members_def)
        moreover have "map (unfold n t) (map (rename m) vs) = map (unfold n h0) vs"
          using ih PList by (simp add: members_def)
        ultimately show ?thesis
          using y a PList by (simp del: map_map)
      next
        case (PClass c ats)
        with nc show ?thesis
          by (simp add: is_class_def)
      qed
      with Some PRef show ?thesis
        by (simp add: rename_def)
    qed
  qed (simp_all add: rename_def)
qed


lemma deepcopy_correct:
  assumes closed: "closed_store h0" and v: "closed_val (length h0) v"
  shows "\<exists>v' ext m. deepcopy h0 v = Inr (v', h0 @ ext) \<and> memo_ok h0 (h0 @ ext) m \<and>
           mirrors h0 (h0 @ ext) m \<and> v' = rename m v \<and> covered h0 m v"
proof -
  have pre: "take (length h0) h0 = h0" by simp
  have ok: "memo_ok h0 h0 Map.empty" by (simp add: memo_ok_def)
  have fuel: "card (unmemo (length h0) Map.empty) < Suc (length h0)"
    by (simp add: unmemo_empty)
  from deepcopy_rec_correct [OF closed pre ok fuel v] obtain v' h' m where
    dc: "deepcopy_rec (Suc (length h0)) (h0, Map.empty) v = Inr (v', h', m)" and
    post: "copy_post h0 h0 Map.empty h' m" and
    v': "v' = rename m v" "covered h0 m v"
    by blast
  from post have t: "take (length h0) h' = h0" and ok': "memo_ok h0 h' m" and
    all: "\<And>a y. m a = Some y \<Longrightarrow> copied_at h0 h' m a"
    by (auto simp: copy_post_def)
  from t have h': "h' = h0 @ drop (length h0) h'"
    by (metis append_take_drop_id)
  have "mirrors h0 h' m"
    unfolding mirrors_def
  proof (intro allI impI)
    fix a y
    assume ay: "m a = Some y"
    from all [OF ay] ay have
      "h' ! y = rebuild (h0 ! a) (map (rename m) (members (h0 ! a)))"
      "\<forall>v \<in> set (members (h0 ! a)). covered h0 m v"
      by (auto simp: copied_at_def)
    moreover from ok' ay have "a < length h0" "length h0 \<le> y" "y < length h'"
      "\<not> is_class (h0 ! a)"
      by (auto simp: memo_ok_def)
    ultimately show "a < length h0 \<and> length h0 \<le> y \<and> y < length h' \<and>
        \<not> is_class (h0 ! a) \<and>
        h' ! y = rebuild (h0 ! a) (map (rename m) (members (h0 ! a))) \<and>
        (\<forall>v \<in> set (members (h0 ! a)). covered h0 m v)"
      by simp
  qed
  moreover have "deepcopy h0 v = Inr (v', h')"
    using dc by (simp add: deepcopy_def)
  ultimately show ?thesis
    using ok' v' h' by metis
qed

lemma closed_val_mono: "closed_val n v \<Longrightarrow> n \<le> k \<Longrightarrow> closed_val k v"
  by (cases v) (auto simp: closed_val_def)

lemma closed_rename:
  assumes "memo_ok h0 h m" "covered h0 m v" "length h0 \<le> length h"
  shows "closed_val (length h) (rename m v)"
proof (cases v)
  case (PRef a)
  with assms show ?thesis
    by (cases "m a") (auto simp: rename_def closed_val_def covered_def memo_ok_def)
qed (simp_all add: rename_def closed_val_def)

lemma mirrors_closed:
  assumes closed: "closed_store h0" and ok: "memo_ok h0 (h0 @ ext) m"
    and mir: "mirrors h0 (h0 @ ext) m"
  shows "closed_store (h0 @ ext)"
  unfolding closed_store_def
proof (intro ballI)
  fix x v
  assume x: "x \<in> set (h0 @ ext)" and v: "v \<in> set (members x)"
  from x obtain y where y: "y < length (h0 @ ext)" and xy: "x = (h0 @ ext) ! y"
    unfolding in_set_conv_nth by blast
  show "closed_val (length (h0 @ ext)) v"
  proof (cases "y < length h0")
    case True
    with xy have "x = h0 ! y" by (simp add: nth_append)
    with closed True v have "closed_val (length h0) v"
      by (auto simp: closed_store_def)
    then show ?thesis
      by (rule closed_val_mono) simp
  next
    case False
    from ok have "\<forall>y. length h0 \<le> y \<and> y < length (h0 @ ext) \<longrightarrow> (\<exists>a. m a = Some y)"
      by (simp add: memo_ok_def)
    with False y obtain a where a: "m a = Some y"
      by (meson not_le)
    with mir have ob: "(h0 @ ext) ! y = rebuild (h0 ! a) (map (rename m) (members (h0 ! a)))"
      and cov: "\<forall>v \<in> set (members (h0 ! a)). covered h0 m v"
      by (auto simp: mirrors_def)
    have "members ((h0 @ ext) ! y) = map (rename m) (members (h0 ! a))"
      unfolding ob by (rule members_rebuild) simp
    with v xy obtain w where w: "w \<in> set (members (h0 ! a))" and vw: "v = rename m w"
      by auto
    from cov w have "covered h0 m w" by simp
    from closed_rename [OF ok this] vw show ?thesis
      by simp
  qed
qed

lemma unfold_append:
  assumes closed: "closed_store h"
  shows "closed_val (length h) v \<Longrightarrow> unfold n (h @ e) v = unfold n h v"
proof (induction n arbitrary: v)
  case 0
  then show ?case by (cases v) simp_all
next
  case (Suc n)
  show ?case
  proof (cases v)
    case (PRef a)
    with Suc.prems have a: "a < length h"
      by (simp add: closed_val_def)
    from closed a have cl: "\<forall>w \<in> set (members (h ! a)). closed_val (length h) w"
      by (auto simp: closed_store_def)
    have eq: "map (unfold n (h @ e)) (members (h ! a)) = map (unfold n h) (members (h ! a))"
      using cl by (auto intro: Suc.IH)
    show ?thesis
    proof (cases "h ! a")
      case (PDict kvs)
      with eq have eq': "map (unfold n (h @ e)) (map snd kvs) = map (unfold n h) (map snd kvs)"
        by (simp only: members_def pyobj.case)
      from PRef a PDict show ?thesis
        by (simp add: nth_append eq' del: map_map)
    next
      case (PList vs)
      with eq have eq': "map (unfold n (h @ e)) vs = map (unfold n h) vs"
        by (simp only: members_def pyobj.case)
      from PRef a PList show ?thesis
        by (simp add: nth_append eq')
    next
      case (PClass c ats)
      with PRef a show ?thesis
        by (simp add: nth_append)
    qed
  qed simp_all
qed

lemma deepcopy_isolated:
  assumes closed: "closed_store h0" and v: "closed_val (length h0) v"
  shows "\<exists>v' ext m. deepcopy h0 v = Inr (v', h0 @ ext) \<and> closed_store (h0 @ ext) \<and>
           mirrors h0 (h0 @ ext) m \<and> v' = rename m v \<and> covered h0 m v \<and>
           (\<forall>n g s. keeps_classes h0 g \<longrightarrow> unfold n (g @ ext @ s) v' = unfold n h0 v)"
proof -
  from deepcopy_correct [OF closed v] obtain v' ext m where
    dc: "deepcopy h0 v = Inr (v', h0 @ ext)" and ok: "memo_ok h0 (h0 @ ext) m" and
    mir: "mirrors h0 (h0 @ ext) m" and v': "v' = rename m v" and cov: "covered h0 m v"
    by blast
  have "unfold n (g @ ext @ s) v' = unfold n h0 v" if k: "keeps_classes h0 g" for n g s
  proof -
    from k have len: "length g = length h0"
      by (simp add: keeps_classes_def)
    have "mirrors h0 (g @ ext @ s) m"
      unfolding mirrors_def
    proof (intro allI impI)
      fix a y
      assume ay: "m a = Some y"
      with mir have f: "a < length h0" "length h0 \<le> y" "y < length (h0 @ ext)"
        "\<not> is_class (h0 ! a)"
        "(h0 @ ext) ! y = rebuild (h0 ! a) (map (rename m) (members (h0 ! a)))"
        "\<forall>v \<in> set (members (h0 ! a)). covered h0 m v"
        by (auto simp: mirrors_def)
      from f(2,3) have "y - length h0 < length ext" "\<not> y < length h0"
        by simp_all
      with len have "(g @ ext @ s) ! y = (h0 @ ext) ! y"
        by (simp add: nth_append)
      with f len show "a < length h0 \<and> length h0 \<le> y \<and> y < length (g @ ext @ s) \<and>
          \<not> is_class (h0 ! a) \<and>
          (g @ ext @ s) ! y = rebuild (h0 ! a) (map (rename m) (members (h0 ! a))) \<and>
          (\<forall>v \<in> set (members (h0 ! a)). covered h0 m v)"
        by simp
    qed
    moreover have "b < length (g @ ext @ s) \<and> (\<exists>ats'. (g @ ext @ s) ! b = PClass c ats')"
      if "b < length h0" "h0 ! b = PClass c ats" for b c ats
      using k that by (auto simp: keeps_classes_def nth_append)
    ultimately show ?thesis
      unfolding v' using cov by (rule unfold_mirrors)
  qed
  with dc mirrors_closed [OF closed ok mir] mir v' cov show ?thesis
    by blast
qed

section \<open>Copies, classes and stores\<close>

lemma rename_copied:
  assumes "mirrors h0 t m" "covered h0 m v"
  shows "copied h0 v (rename m v)"
proof (cases v)
  case (PRef a)
  show ?thesis
  proof (cases "m a")
    case None
    with assms(2) PRef show ?thesis
      by (simp add: covered_def copied_def rename_def)
  next
    case (Some y)
    with assms(1) have "\<not> is_class (h0 ! a)" "length h0 \<le> y"
      by (auto simp: mirrors_def)
    with Some PRef show ?thesis
      by (simp add: copied_def rename_def)
  qed
qed (simp_all add: copied_def rename_def)

lemma copied_append:
  assumes "copied (h @ e) v v'" "closed_val (length h) v"
  shows "copied h v v'"
proof (cases v)
  case (PRef a)
  with assms(2) have "a < length h"
    by (simp add: closed_val_def)
  with assms(1) PRef show ?thesis
    by (cases v') (auto simp: copied_def nth_append split: if_splits)
qed (use assms in \<open>simp_all add: copied_def\<close>)

lemma copied_dict: "pydict h v = Some kvs \<Longrightarrow> copied h v v' \<Longrightarrow> v' \<noteq> v"
  by (auto simp: copied_def pydict_def is_class_def split: pyval.splits pyobj.splits if_splits)

lemma pydict_closed: "pydict h v = Some kvs \<Longrightarrow> closed_val (length h) v"
  by (auto simp: pydict_def closed_val_def split: pyval.splits if_splits)

lemma mirrors_append: "mirrors h0 t m \<Longrightarrow> mirrors h0 (t @ e) m"
  unfolding mirrors_def by (simp add: nth_append) (metis trans_less_add1)

lemma keeps_classes_append:
  "keeps_classes h g \<Longrightarrow> keeps_classes (h @ e) (g @ e)"
  by (auto simp: keeps_classes_def nth_append)


lemma keeps_classes_update:
  "a < length h \<Longrightarrow> \<not> is_class (h ! a) \<Longrightarrow> keeps_classes h (h[a := ob])"
  by (auto simp: keeps_classes_def is_class_def nth_list_update)

section \<open>What the constructor leaves\<close>

lemma init_attributes:
  assumes "init J llm h p src cfg sch = Inr (self, h')"
  shows "prompt self = p \<and> source self = src \<and> config self = cfg \<and> schema self = sch \<and>
         llm_model self = llm \<and> graph self = Some (create_graph J self) \<and>
         final_state self = PNone \<and> execution_info self = PNone"
  using assms
  by (auto simp: init_def abstract_graph_init_def Let_def create_graph_def
        graph_iterator_node_def merge_answers_node_def class_name_def
      split: sum.splits prod.splits)

lemma init_copies:
  assumes closed: "closed_store h"
    and dict: "pydict h cfg = Some kvs"
    and sch: "closed_val (length h) sch"
  shows "\<exists>self ext m.
           init J llm h p src cfg sch = Inr (self, h @ ext) \<and>
           mirrors h (h @ ext) m \<and> copy_config self = rename m cfg \<and> covered h m cfg \<and>
           copied h cfg (copy_config self) \<and> copied h sch (copy_schema self) \<and>
           (\<forall>n g s. keeps_classes h g \<longrightarrow>
              unfold n (g @ ext @ s) (copy_config self) = unfold n h cfg \<and>
              unfold n (g @ ext @ s) (copy_schema self) = unfold n h sch)"
proof -
  from deepcopy_isolated [OF closed pydict_closed [OF dict]] obtain cc e1 m where
    c1: "deepcopy h cfg = Inr (cc, h @ e1)" and cl1: "closed_store (h @ e1)" and
    mir: "mirrors h (h @ e1) m" and cc: "cc = rename m cfg" and cov: "covered h m cfg" and
    i1: "\<And>n g s. keeps_classes h g \<Longrightarrow> unfold n (g @ e1 @ s) cc = unfold n h cfg"
    by blast
  from sch have sch1: "closed_val (length (h @ e1)) sch"
    by (rule closed_val_mono) simp
  from deepcopy_isolated [OF cl1 sch1] obtain cs e2 ms where
    c2: "deepcopy (h @ e1) sch = Inr (cs, (h @ e1) @ e2)" and
    mir2: "mirrors (h @ e1) ((h @ e1) @ e2) ms" and cs: "cs = rename ms sch" and
    cov2: "covered (h @ e1) ms sch" and
    i2: "\<And>n g s. keeps_classes (h @ e1) g \<Longrightarrow>
           unfold n (g @ e2 @ s) cs = unfold n (h @ e1) sch"
    by blast
  from dict obtain mr where mr: "dict_get h cfg ''max_results'' (PInt 3) = Inr mr"
    by (auto simp: pydict_def dict_get_def split: pyval.splits pyobj.splits if_splits)
  let ?self = "abstract_graph_init llm (create_graph J)
      (new_object\<lparr> max_results := mr, copy_config := cc, copy_schema := cs \<rparr>) p cfg src sch"
  have f: "copy_config ?self = cc" "copy_schema ?self = cs"
    by (simp_all add: abstract_graph_init_def Let_def)
  have i: "init J llm h p src cfg sch = Inr (?self, h @ (e1 @ e2))"
    using mr c1 c2 by (simp add: init_def safe_deepcopy_def)
  have m: "mirrors h (h @ (e1 @ e2)) m"
    using mirrors_append [OF mir, of e2] by simp
  have k1: "copied h cfg cc"
    unfolding cc using mir cov by (rule rename_copied)
  have "copied (h @ e1) sch cs"
    unfolding cs using mir2 cov2 by (rule rename_copied)
  then have k2: "copied h sch cs"
    using sch by (rule copied_append)
  have iso: "unfold n (g @ (e1 @ e2) @ s) cc = unfold n h cfg \<and>
             unfold n (g @ (e1 @ e2) @ s) cs = unfold n h sch"
    if k: "keeps_classes h g" for n g s
  proof -
    have "unfold n ((g @ e1) @ e2 @ s) cs = unfold n (h @ e1) sch"
      using keeps_classes_append [OF k] by (rule i2)
    also have "\<dots> = unfold n h sch"
      using closed sch by (rule unfold_append)
    finally show ?thesis
      using i1 [OF k, of n "e2 @ s"] by simp
  qed
  have "init J llm h p src cfg sch = Inr (?self, h @ (e1 @ e2)) \<and>
        mirrors h (h @ (e1 @ e2)) m \<and> copy_config ?self = rename m cfg \<and> covered h m cfg \<and>
        copied h cfg (copy_config ?self) \<and> copied h sch (copy_schema ?self) \<and>
        (\<forall>n g s. keeps_classes h g \<longrightarrow>
           unfold n (g @ (e1 @ e2) @ s) (copy_config ?self) = unfold n h cfg \<and>
           unfold n (g @ (e1 @ e2) @ s) (copy_schema ?self) = unfold n h sch)"
    unfolding f using i m cc cov k1 k2 iso by blast
  then show ?thesis
    by blast
qed

section \<open>The constructed examples\<close>

lemma caller_closed: "closed_store caller_store"
  by (simp add: closed_store_def caller_store_def members_def closed_val_def)

lemma example_init:
  "init (PRef 0) (PStr ''gpt'') caller_store (PStr ''q'') (PRef 5) (PRef 4) (PRef 2) =
     Inr (example_self, example_store)"
  by (simp add: example_self_def example_store_def init_def caller_store_def dict_get_def
      safe_deepcopy_def deepcopy_def members_def rebuild_def eval_nat_numeral)


lemma sharing_init:
  "init (PRef 0) (PRef 3) caller_store (PStr ''q'') (PRef 5) (PRef 4) (PRef 2) =
     Inr (sharing_self, example_store)"
  by (simp add: sharing_self_def example_store_def init_def caller_store_def dict_get_def
      safe_deepcopy_def deepcopy_def members_def rebuild_def eval_nat_numeral)

lemma example_graph: "graph example_self = Some (create_graph (PRef 0) example_self)"
  using init_attributes [OF example_init] by simp

lemma example_length: "length example_store = 9"
  by (simp add: example_store_def caller_store_def)

section \<open>What run returns\<close>

lemma dict_get_pydict:
  "pydict h d = Some kvs \<Longrightarrow>
   dict_get h d key dflt = Inr (case map_of kvs key of Some v \<Rightarrow> v | None \<Rightarrow> dflt)"
  by (auto simp: pydict_def dict_get_def split: pyval.splits pyobj.splits if_splits)

text \<open>
  C1 (as amended). When the engine returns a final state that is a dictionary, \<open>run\<close>
  returns the value stored under \<^verbatim>\<open>answer\<close> if the key is present and the string
  \<^verbatim>\<open>No answer found.\<close> if it is absent. The returned value is that string exactly
  when the key is absent or the stored value is that very string. No other key counts:
  a second engine whose final state agrees on \<^verbatim>\<open>answer\<close> makes \<open>run\<close> return the
  same value.
\<close>

theorem run_returns_answer_or_fallback:
  assumes g: "graph self = Some g"
    and ex: "execute es (h @ [run_inputs self]) g (PRef (length h)) = (Inr (fs, ei), es', h')"
    and fs: "pydict h' fs = Some kvs"
    and ox: "other os (h @ [run_inputs self]) g (PRef (length h)) =
                (Inr (ofs, oei), os', oh)"
    and ofs: "pydict oh ofs = Some okvs"
    and same: "map_of okvs ''answer'' = map_of kvs ''answer''"
  shows "fst (run execute es h self) =
           Inr (case map_of kvs ''answer'' of
                  Some v \<Rightarrow> v
                | None \<Rightarrow> PStr ''No answer found.'') \<and>
         (fst (run execute es h self) = Inr (PStr ''No answer found.'') \<longleftrightarrow>
            map_of kvs ''answer'' = None \<or>
            map_of kvs ''answer'' = Some (PStr ''No answer found.'')) \<and>
         fst (run other os h self) = fst (run execute es h self)"
proof -
  have r1: "fst (run execute es h self) =
           Inr (case map_of kvs ''answer'' of Some v \<Rightarrow> v | None \<Rightarrow> PStr ''No answer found.'')"
    using g ex by (simp add: run_def Let_def dict_get_pydict [OF fs])
  have r2: "fst (run other os h self) =
           Inr (case map_of kvs ''answer'' of Some v \<Rightarrow> v | None \<Rightarrow> PStr ''No answer found.'')"
    using g ox by (simp add: run_def Let_def dict_get_pydict [OF ofs] same)
  show ?thesis
    unfolding r1 r2 by (auto split: option.splits)
qed

text \<open>
  The theorem at the example: two final states with the same answer and different other
  keys.
\<close>

theorem run_returns_answer_or_fallback_witness:
  "fst (run (answering [(''answer'', PStr ''Rome''), (''results'', PRef 0)]) ()
          example_store example_self) = Inr (PStr ''Rome'') \<and>
   fst (run (answering [(''trace'', PNone), (''answer'', PStr ''Rome'')]) ()
          example_store example_self) = Inr (PStr ''Rome'')"
proof -
  let ?h = "example_store @ [run_inputs example_self]"
  let ?k1 = "[(''answer'', PStr ''Rome''), (''results'', PRef 0)]"
  let ?k2 = "[(''trace'', PNone), (''answer'', PStr ''Rome'')]"
  let ?g = "create_graph (PRef 0) example_self"
  let ?i = "PRef (length example_store)"
  have e1: "answering ?k1 () ?h ?g ?i =
      (Inr (PRef (length ?h), PRef (Suc (length ?h))), (), ?h @ [PDict ?k1, PList []])"
    by (simp add: answering_def)
  have e2: "answering ?k2 () ?h ?g ?i =
      (Inr (PRef (length ?h), PRef (Suc (length ?h))), (), ?h @ [PDict ?k2, PList []])"
    by (simp add: answering_def)
  have d1: "pydict (?h @ [PDict ?k1, PList []]) (PRef (length ?h)) = Some ?k1"
    by (simp add: pydict_def nth_append)
  have d2: "pydict (?h @ [PDict ?k2, PList []]) (PRef (length ?h)) = Some ?k2"
    by (simp add: pydict_def nth_append)
  have s: "map_of ?k2 ''answer'' = map_of ?k1 ''answer''"
    by simp
  from run_returns_answer_or_fallback
         [where execute = "answering ?k1" and other = "answering ?k2" and h = example_store,
          OF example_graph e1 d1 e2 d2 s]
  show ?thesis by simp
qed

text \<open>
  C1 as it was stated, with "if and only if that key is absent", fails: a final state
  that stores the string \<^verbatim>\<open>No answer found.\<close> under \<^verbatim>\<open>answer\<close> makes \<open>run\<close>
  return that string although the key is present.
\<close>

theorem run_fallback_iff_absent_counterexample:
  "\<not> (fst (run (answering [(''answer'', PStr ''No answer found.'')]) ()
              example_store example_self) = Inr (PStr ''No answer found.'') \<longleftrightarrow>
       map_of [(''answer'', PStr ''No answer found.'')] ''answer'' = None)"
  by (simp add: run_def example_graph answering_def dict_get_def Let_def)

section \<open>What run passes to the engine\<close>

text \<open>
  C2. For an instance constructed with the prompt \<open>p\<close> and the source list \<open>src\<close>,
  \<open>run\<close> calls the engine once, with the graph of the instance and a new dictionary
  that has exactly the two entries \<^verbatim>\<open>user_prompt\<close>, bound to \<open>p\<close>, and
  \<^verbatim>\<open>jsons\<close>, bound to \<open>src\<close>, the very list it was given; the store the engine
  sees is the store \<open>run\<close> was called in with that dictionary added, so the list is
  as it was. Observing the engine does not change what \<open>run\<close> returns.
\<close>

theorem run_passes_inputs:
  assumes "init JSONScraperGraph llm h0 p src cfg sch = Inr (self, h1)"
  shows "calls_of (run (logged execute) (es, []) h self) =
           [(create_graph JSONScraperGraph self, PRef (length h),
             h @ [PDict [(''user_prompt'', p), (''jsons'', src)]])] \<and>
         pydict (h @ [PDict [(''user_prompt'', p), (''jsons'', src)]]) (PRef (length h)) =
           Some [(''user_prompt'', p), (''jsons'', src)] \<and>
         fst (run (logged execute) (es, []) h self) = fst (run execute es h self)"
proof -
  from init_attributes [OF assms] have
    a: "graph self = Some (create_graph JSONScraperGraph self)" "prompt self = p"
      "source self = src"
    by simp_all
  show ?thesis
    by (simp add: run_def Let_def a run_inputs_def logged_def calls_of_def pydict_def
          split: prod.splits sum.splits)
qed

theorem run_passes_inputs_witness:
  "calls_of (run (logged flaky) (0, []) example_store example_self) =
     [(create_graph (PRef 0) example_self, PRef 9,
       example_store @ [PDict [(''user_prompt'', PStr ''q''), (''jsons'', PRef 5)]])]"
  using run_passes_inputs [OF example_init, where execute = flaky and es = 0 and h = example_store]
  by (simp add: example_length)

section \<open>The graph\<close>

text \<open>
  C3. \<^verbatim>\<open>_create_graph\<close> returns a graph with exactly two nodes, a
  \<^verbatim>\<open>GraphIteratorNode\<close> followed by a \<^verbatim>\<open>MergeAnswersNode\<close>, exactly one edge, from
  the iterator node to the merge node, the iterator node as entry point, and the name
  of the class as graph name.
\<close>

theorem create_graph_two_nodes_one_edge:
  "nodes (create_graph JSONScraperGraph self) =
     [graph_iterator_node JSONScraperGraph self, merge_answers_node self] \<and>
   length (nodes (create_graph JSONScraperGraph self)) = 2 \<and>
   node_class (graph_iterator_node JSONScraperGraph self) = ''GraphIteratorNode'' \<and>
   node_class (merge_answers_node self) = ''MergeAnswersNode'' \<and>
   graph_iterator_node JSONScraperGraph self \<noteq> merge_answers_node self \<and>
   edges (create_graph JSONScraperGraph self) =
     [(graph_iterator_node JSONScraperGraph self, merge_answers_node self)] \<and>
   entry_point (create_graph JSONScraperGraph self) = graph_iterator_node JSONScraperGraph self \<and>
   graph_name (create_graph JSONScraperGraph self) = ''JSONScraperMultiGraph''"
  by (simp add: create_graph_def graph_iterator_node_def merge_answers_node_def class_name_def)

section \<open>The pipeline: fan out, then merge\<close>

lemma pylist_append: "pylist h v = Some vs \<Longrightarrow> pylist (h @ e) v = Some vs"
  by (auto simp: pylist_def nth_append split: pyval.splits if_splits)

lemma wiring:
  "input_keys (node_input (graph_iterator_node J self)) = [''user_prompt'', ''jsons''] \<and>
   node_output (graph_iterator_node J self) = [''results''] \<and>
   input_keys (node_input (merge_answers_node self)) = [''user_prompt'', ''results''] \<and>
   node_output (merge_answers_node self) = [''answer'']"
  by (simp add: graph_iterator_node_def merge_answers_node_def input_keys_def strip_def)

text \<open>
  C5. The iterator node consumes the keys \<^verbatim>\<open>user_prompt\<close> and \<^verbatim>\<open>jsons\<close> and
  produces the single key \<^verbatim>\<open>results\<close>; the merge node consumes \<^verbatim>\<open>user_prompt\<close>
  and \<^verbatim>\<open>results\<close> and produces the single key \<^verbatim>\<open>answer\<close>; the iterator node is
  the entry point, is given the class \<^verbatim>\<open>JSONScraperGraph\<close>, and the only edge leads
  from it to the merge node. Run by the engine the specification describes, on an
  instance constructed with the prompt \<open>p\<close> and a list of sources, the graph makes
  \<open>run\<close> return the merge of the answers of the sub-pipeline \<^verbatim>\<open>JSONScraperGraph\<close>,
  one per source and in the order of the sources, each computed from the prompt and
  that source with \<^verbatim>\<open>copy_config\<close> and \<^verbatim>\<open>copy_schema\<close>; the merge is given the
  language model, \<^verbatim>\<open>copy_schema\<close>, the prompt and those answers.
\<close>

theorem run_fans_out_and_merges:
  assumes i: "init JSONScraperGraph llm h0 p src cfg sch = Inr (self, h1)"
    and l: "pylist h src = Some sources"
  shows "fst (run (graph_engine scrape merge) es h self) =
           Inr (merge llm (copy_schema self) p
                  (map (scrape JSONScraperGraph (copy_config self) (copy_schema self) p)
                     sources)) \<and>
         input_keys (node_input (graph_iterator_node JSONScraperGraph self)) =
           [''user_prompt'', ''jsons''] \<and>
         node_output (graph_iterator_node JSONScraperGraph self) = [''results''] \<and>
         input_keys (node_input (merge_answers_node self)) = [''user_prompt'', ''results''] \<and>
         node_output (merge_answers_node self) = [''answer''] \<and>
         map_of (node_config (graph_iterator_node JSONScraperGraph self)) ''graph_instance'' =
           Some JSONScraperGraph \<and>
         entry_point (create_graph JSONScraperGraph self) =
           graph_iterator_node JSONScraperGraph self \<and>
         edges (create_graph JSONScraperGraph self) =
           [(graph_iterator_node JSONScraperGraph self, merge_answers_node self)]"
proof -
  let ?J = JSONScraperGraph
  let ?it = "graph_iterator_node ?J self"
  let ?mg = "merge_answers_node self"
  let ?g = "create_graph ?J self"
  let ?st = "[(''user_prompt'', p), (''jsons'', src)]"
  let ?h = "h @ [PDict ?st]"
  let ?rs = "map (scrape ?J (copy_config self) (copy_schema self) p) sources"
  let ?st1 = "?st @ [(''results'', PRef (length ?h))]"
  let ?h1 = "?h @ [PList ?rs]"
  let ?ans = "merge llm (copy_schema self) p ?rs"
  let ?st2 = "?st1 @ [(''answer'', ?ans)]"
  from init_attributes [OF i] have
    a: "graph self = Some ?g" "prompt self = p" "source self = src" "llm_model self = llm"
    by simp_all
  note w = wiring [of ?J self]
  have l1: "pylist ?h src = Some sources"
    using l by (rule pylist_append)
  have n1: "execute_node scrape merge ?it ?h ?st = Inr (?st1, ?h1)"
    using l1
    by (simp add: execute_node_def dict_set_def graph_iterator_node_def input_keys_def
          strip_def)
  have l2: "pylist ?h1 (PRef (length ?h)) = Some ?rs"
    by (simp add: pylist_def nth_append)
  have n2: "execute_node scrape merge ?mg ?h1 ?st1 = Inr (?st2, ?h1)"
    using l2
    by (simp add: execute_node_def dict_set_def merge_answers_node_def a input_keys_def
          strip_def)
  have e1: "map_of (edges ?g) ?it = Some ?mg"
    by (simp add: create_graph_def)
  have e2: "map_of (edges ?g) ?mg = None"
    by (simp add: create_graph_def graph_iterator_node_def merge_answers_node_def)
  have ex: "execute_from scrape merge ?g (Suc (Suc 0)) ?it ?h ?st = Inr (?st2, ?h1)"
    by (simp only: execute_from.simps n1 n2 e1 e2 sum.case prod.case option.case)
  have len: "length (nodes ?g) = Suc (Suc 0)" and ep: "entry_point ?g = ?it"
    by (simp_all add: create_graph_def)
  have d: "pydict ?h (PRef (length h)) = Some ?st"
    by (simp add: pydict_def)
  have "graph_engine scrape merge es ?h ?g (PRef (length h)) =
      (Inr (PRef (length ?h1), PRef (Suc (length ?h1))), es, ?h1 @ [PDict ?st2, PList []])"
    by (simp add: graph_engine_def d len ep ex del: execute_from.simps)
  then have "fst (run (graph_engine scrape merge) es h self) = Inr ?ans"
    by (simp add: run_def Let_def a run_inputs_def dict_get_def nth_append)
  moreover have "map_of (node_config ?it) ''graph_instance'' = Some ?J"
    by (simp add: graph_iterator_node_def)
  ultimately show ?thesis
    using w ep by (simp add: create_graph_def)
qed

text \<open>
  The theorem at the example, with a sub-pipeline that answers with its source and a
  merge that counts: two sources, two answers.
\<close>

theorem run_fans_out_and_merges_witness:
  "fst (run (graph_engine echo_scraper counting_merger) () example_store example_self) =
     Inr (PInt 2)"
proof -
  have "pylist example_store (PRef 5) = Some [PStr ''a.json'', PStr ''b.json'']"
    by (simp add: pylist_def example_store_def caller_store_def)
  from run_fans_out_and_merges [OF example_init this, where scrape = echo_scraper
      and merge = counting_merger and es = "()"]
  show ?thesis
    by (simp add: counting_merger_def)
qed

section \<open>Errors of the engine\<close>

text \<open>
  C6. When the engine raises, \<open>run\<close> raises the same error: the object is left as it
  was (no fallback answer is stored or returned), the engine's state is the one the
  single failing call left, and the engine has been called once.
\<close>

theorem run_propagates_engine_error:
  assumes g: "graph self = Some g"
    and ex: "execute es (h @ [run_inputs self]) g (PRef (length h)) = (Inl e, es', h')"
  shows "run execute es h self = (Inl e, self, es', h') \<and>
         length (calls_of (run (logged execute) (es, []) h self)) = 1"
  using g ex by (simp add: run_def Let_def logged_def calls_of_def)

text \<open>
  The theorem at an engine that raises on its first call and would answer on a second
  one: \<open>run\<close> raises, and the engine's counter shows one call.
\<close>

theorem run_propagates_engine_error_witness:
  "run flaky 0 example_store example_self =
     (Inl (Raised ''timeout''), example_self, 1, example_store @ [run_inputs example_self])"
proof -
  have "flaky 0 (example_store @ [run_inputs example_self])
          (create_graph (PRef 0) example_self) (PRef (length example_store)) =
        (Inl (Raised ''timeout''), 1, example_store @ [run_inputs example_self])"
    by (simp add: flaky_def)
  from run_propagates_engine_error [where execute = flaky, OF example_graph this]
  show ?thesis by simp
qed

section \<open>What run changes\<close>

text \<open>
  C9. The object \<open>run\<close> leaves differs from the one it was called on in the attributes
  \<^verbatim>\<open>final_state\<close> and \<^verbatim>\<open>execution_info\<close> at most: every other attribute is
  unchanged. When the engine returns a pair, the two attributes are set to that pair;
  when it raises, the object is unchanged.
\<close>

theorem run_assigns_only_results:
  "(\<exists>fs ei. fst (snd (run execute es h self)) =
             self\<lparr> final_state := fs, execution_info := ei \<rparr>) \<and>
   max_results (fst (snd (run execute es h self))) = max_results self \<and>
   copy_config (fst (snd (run execute es h self))) = copy_config self \<and>
   copy_schema (fst (snd (run execute es h self))) = copy_schema self \<and>
   prompt (fst (snd (run execute es h self))) = prompt self \<and>
   source (fst (snd (run execute es h self))) = source self \<and>
   config (fst (snd (run execute es h self))) = config self \<and>
   schema (fst (snd (run execute es h self))) = schema self \<and>
   llm_model (fst (snd (run execute es h self))) = llm_model self \<and>
   graph (fst (snd (run execute es h self))) = graph self \<and>
   (\<forall>g fs ei es' h'.
      graph self = Some g \<and>
      execute es (h @ [run_inputs self]) g (PRef (length h)) = (Inr (fs, ei), es', h') \<longrightarrow>
      final_state (fst (snd (run execute es h self))) = fs \<and>
      execution_info (fst (snd (run execute es h self))) = ei) \<and>
   (\<forall>g e es' h'.
      graph self = Some g \<and>
      execute es (h @ [run_inputs self]) g (PRef (length h)) = (Inl e, es', h') \<longrightarrow>
      fst (snd (run execute es h self)) = self)"
proof -
  have "\<exists>fs ei. fst (snd (run execute es h self)) =
             self\<lparr> final_state := fs, execution_info := ei \<rparr>"
  proof (cases "graph self")
    case None
    then have "fst (snd (run execute es h self)) =
        self\<lparr> final_state := final_state self, execution_info := execution_info self \<rparr>"
      by (simp add: run_def Let_def)
    then show ?thesis by blast
  next
    case (Some g)
    obtain r es' h' where ex: "execute es (h @ [run_inputs self]) g (PRef (length h)) = (r, es', h')"
      by (cases "execute es (h @ [run_inputs self]) g (PRef (length h))") auto
    show ?thesis
    proof (cases r)
      case (Inl e)
      with Some ex have "fst (snd (run execute es h self)) =
          self\<lparr> final_state := final_state self, execution_info := execution_info self \<rparr>"
        by (simp add: run_def Let_def)
      then show ?thesis by blast
    next
      case (Inr p)
      with Some ex have "fst (snd (run execute es h self)) =
          self\<lparr> final_state := fst p, execution_info := snd p \<rparr>"
        by (cases p) (simp add: run_def Let_def)
      then show ?thesis by blast
    qed
  qed
  moreover from this obtain fs ei where
    "fst (snd (run execute es h self)) = self\<lparr> final_state := fs, execution_info := ei \<rparr>"
    by blast
  then have "max_results (fst (snd (run execute es h self))) = max_results self \<and>
   copy_config (fst (snd (run execute es h self))) = copy_config self \<and>
   copy_schema (fst (snd (run execute es h self))) = copy_schema self \<and>
   prompt (fst (snd (run execute es h self))) = prompt self \<and>
   source (fst (snd (run execute es h self))) = source self \<and>
   config (fst (snd (run execute es h self))) = config self \<and>
   schema (fst (snd (run execute es h self))) = schema self \<and>
   llm_model (fst (snd (run execute es h self))) = llm_model self \<and>
   graph (fst (snd (run execute es h self))) = graph self"
    by simp
  moreover have "\<forall>g fs ei es' h'.
      graph self = Some g \<and>
      execute es (h @ [run_inputs self]) g (PRef (length h)) = (Inr (fs, ei), es', h') \<longrightarrow>
      final_state (fst (snd (run execute es h self))) = fs \<and>
      execution_info (fst (snd (run execute es h self))) = ei"
    by (simp add: run_def Let_def)
  moreover have "\<forall>g e es' h'.
      graph self = Some g \<and>
      execute es (h @ [run_inputs self]) g (PRef (length h)) = (Inl e, es', h') \<longrightarrow>
      fst (snd (run execute es h self)) = self"
    by (simp add: run_def Let_def)
  ultimately show ?thesis by blast
qed

text \<open>
  The theorem at the example, with an engine that answers: the two attributes are the
  pair the engine returned, the others are as they were.
\<close>

theorem run_assigns_only_results_witness:
  "final_state (fst (snd (run (answering [(''answer'', PStr ''Rome'')]) () example_store
      example_self))) = PRef 10 \<and>
   execution_info (fst (snd (run (answering [(''answer'', PStr ''Rome'')]) () example_store
      example_self))) = PRef 11 \<and>
   prompt (fst (snd (run (answering [(''answer'', PStr ''Rome'')]) () example_store
      example_self))) = prompt example_self \<and>
   source (fst (snd (run (answering [(''answer'', PStr ''Rome'')]) () example_store
      example_self))) = source example_self \<and>
   copy_config (fst (snd (run (answering [(''answer'', PStr ''Rome'')]) () example_store
      example_self))) = copy_config example_self"
proof -
  let ?e = "answering [(''answer'', PStr ''Rome'')]"
  let ?h = "example_store @ [run_inputs example_self]"
  have e: "?e () ?h (create_graph (PRef 0) example_self) (PRef (length example_store)) =
      (Inr (PRef 10, PRef 11), (), ?h @ [PDict [(''answer'', PStr ''Rome'')], PList []])"
    by (simp add: answering_def example_length)
  note t = run_assigns_only_results [where execute = ?e and es = "()" and h = example_store
      and self = example_self]
  from t have "\<forall>g fs ei es' h'.
      graph example_self = Some g \<and>
      ?e () ?h g (PRef (length example_store)) = (Inr (fs, ei), es', h') \<longrightarrow>
      final_state (fst (snd (run ?e () example_store example_self))) = fs \<and>
      execution_info (fst (snd (run ?e () example_store example_self))) = ei"
    by blast
  with example_graph e have
    "final_state (fst (snd (run ?e () example_store example_self))) = PRef 10 \<and>
     execution_info (fst (snd (run ?e () example_store example_self))) = PRef 11"
    by blast
  with t show ?thesis by blast
qed

section \<open>The attribute max_results\<close>

lemma run_inputs_max_results:
  "run_inputs (self\<lparr> max_results := x \<rparr>) = run_inputs self"
  by (simp add: run_inputs_def)

lemma run_max_results:
  "run execute es h (self\<lparr> max_results := x \<rparr>) =
     (case run execute es h self of (r, self', rest) \<Rightarrow> (r, self'\<lparr> max_results := x \<rparr>, rest))"
  by (simp add: run_def Let_def run_inputs_max_results split: option.splits prod.splits sum.splits)

text \<open>
  C7. After a construction that succeeds, \<^verbatim>\<open>max_results\<close> is the value stored under
  the key \<^verbatim>\<open>max_results\<close> in the configuration the caller passed, as it stood in
  the caller's store before anything was copied, and 3 if the key is absent. Neither
  \<^verbatim>\<open>_create_graph\<close> nor \<open>run\<close> uses the attribute: with any other value in its
  place the graph is the same, and \<open>run\<close> returns the same value, leaves the same
  engine state and store, and leaves the same object up to that attribute.
\<close>

theorem init_max_results:
  assumes i: "init JSONScraperGraph llm h p src cfg sch = Inr (self, h')"
    and d: "pydict h cfg = Some kvs"
  shows "max_results self = (case map_of kvs ''max_results'' of Some v \<Rightarrow> v | None \<Rightarrow> PInt 3) \<and>
         create_graph JSONScraperGraph (self\<lparr> max_results := x \<rparr>) =
           create_graph JSONScraperGraph self \<and>
         fst (run execute es hr (self\<lparr> max_results := x \<rparr>)) = fst (run execute es hr self) \<and>
         snd (snd (run execute es hr (self\<lparr> max_results := x \<rparr>))) =
           snd (snd (run execute es hr self)) \<and>
         fst (snd (run execute es hr (self\<lparr> max_results := x \<rparr>))) =
           (fst (snd (run execute es hr self)))\<lparr> max_results := x \<rparr>"
proof -
  from i have "max_results self = (case map_of kvs ''max_results'' of Some v \<Rightarrow> v | None \<Rightarrow> PInt 3)"
    by (auto simp: init_def dict_get_pydict [OF d] abstract_graph_init_def Let_def new_object_def
          split: sum.splits prod.splits)
  moreover have "create_graph JSONScraperGraph (self\<lparr> max_results := x \<rparr>) =
      create_graph JSONScraperGraph self"
    by (simp add: create_graph_def graph_iterator_node_def merge_answers_node_def class_name_def)
  ultimately show ?thesis
    by (simp add: run_max_results split: prod.splits)
qed

theorem init_max_results_witness:
  "max_results example_self = PInt 5 \<and>
   create_graph (PRef 0) (example_self\<lparr> max_results := PInt 9 \<rparr>) =
     create_graph (PRef 0) example_self"
proof -
  have d: "pydict caller_store (PRef 4) =
      Some [(''llm'', PRef 3), (''fallback'', PRef 3), (''max_results'', PInt 5),
            (''output'', PRef 2)]"
    by (simp add: pydict_def caller_store_def)
  from init_max_results
         [OF example_init d, where x = "PInt 9" and execute = flaky and es = 0
          and hr = example_store]
  show ?thesis
    by simp
qed

section \<open>The copies made at construction\<close>




section \<open>What the nodes are configured from\<close>

lemma node_values_eq:
  "node_values (graph_iterator_node J self) = [J, copy_config self, copy_schema self] \<and>
   node_values (merge_answers_node self) = [llm_model self, copy_schema self]"
  by (simp add: node_values_def graph_iterator_node_def merge_answers_node_def)

text \<open>
  C8 (as amended). In the graph of a constructed instance the iterator node's
  \<^verbatim>\<open>scraper_config\<close> is \<^verbatim>\<open>copy_config\<close>, a new object and not the caller's
  configuration object, and the schema of both nodes is \<^verbatim>\<open>copy_schema\<close>, the deep
  copy of the schema. The dictionaries and lists reached from these two without passing
  through a class are copies made at construction: whatever the caller's part of the
  store holds, as long as its classes stay in place, the two unfold as the caller's
  configuration and schema did at construction. A class they hold is the caller's own
  class object. Besides them the iterator node holds the class \<^verbatim>\<open>JSONScraperGraph\<close>
  and the merge node holds \<^verbatim>\<open>llm_model\<close>, the handle of the base class, of which
  nothing is claimed.
\<close>

theorem nodes_hold_the_copies:
  assumes closed: "closed_store h"
    and dict: "pydict h cfg = Some kvs"
    and sch: "closed_val (length h) sch"
  shows "\<exists>self ext.
           init JSONScraperGraph llm h p src cfg sch = Inr (self, h @ ext) \<and>
           graph self = Some (create_graph JSONScraperGraph self) \<and>
           nodes (create_graph JSONScraperGraph self) =
             [graph_iterator_node JSONScraperGraph self, merge_answers_node self] \<and>
           map_of (node_config (graph_iterator_node JSONScraperGraph self)) ''scraper_config'' =
             Some (copy_config self) \<and>
           schema_arg (graph_iterator_node JSONScraperGraph self) = Some (copy_schema self) \<and>
           map_of (node_config (merge_answers_node self)) ''schema'' = Some (copy_schema self) \<and>
           node_values (graph_iterator_node JSONScraperGraph self) =
             [JSONScraperGraph, copy_config self, copy_schema self] \<and>
           node_values (merge_answers_node self) = [llm, copy_schema self] \<and>
           copy_config self \<noteq> cfg \<and>
           copied h cfg (copy_config self) \<and> copied h sch (copy_schema self) \<and>
           (\<forall>n g s. keeps_classes h g \<longrightarrow>
              unfold n (g @ ext @ s) (copy_config self) = unfold n h cfg \<and>
              unfold n (g @ ext @ s) (copy_schema self) = unfold n h sch)"
proof -
  from init_copies [OF closed dict sch, of JSONScraperGraph llm p src] obtain self ext m where
    i: "init JSONScraperGraph llm h p src cfg sch = Inr (self, h @ ext)" and
    k1: "copied h cfg (copy_config self)" and k2: "copied h sch (copy_schema self)" and
    iso: "\<And>n g s. keeps_classes h g \<Longrightarrow>
            unfold n (g @ ext @ s) (copy_config self) = unfold n h cfg \<and>
            unfold n (g @ ext @ s) (copy_schema self) = unfold n h sch"
    by blast
  from init_attributes [OF i] have
    a: "graph self = Some (create_graph JSONScraperGraph self)" "llm_model self = llm"
    by simp_all
  have w: "nodes (create_graph JSONScraperGraph self) =
             [graph_iterator_node JSONScraperGraph self, merge_answers_node self] \<and>
           map_of (node_config (graph_iterator_node JSONScraperGraph self)) ''scraper_config'' =
             Some (copy_config self) \<and>
           schema_arg (graph_iterator_node JSONScraperGraph self) = Some (copy_schema self) \<and>
           map_of (node_config (merge_answers_node self)) ''schema'' = Some (copy_schema self)"
    by (simp add: create_graph_def graph_iterator_node_def merge_answers_node_def)
  from i a w node_values_eq [of JSONScraperGraph self] copied_dict [OF dict k1] k1 k2 iso
  show ?thesis
    by (intro exI [of _ self] exI [of _ ext]) simp
qed

theorem nodes_hold_the_copies_witness:
  "map_of (node_config (graph_iterator_node (PRef 0) example_self)) ''scraper_config'' =
     Some (copy_config example_self) \<and>
   node_values (merge_answers_node example_self) = [PStr ''gpt'', copy_schema example_self] \<and>
   copy_config example_self \<noteq> PRef 4 \<and>
   unfold 3 (example_store[4 := PDict []]) (copy_config example_self) =
     unfold 3 caller_store (PRef 4)"
proof -
  have d: "pydict caller_store (PRef 4) =
      Some [(''llm'', PRef 3), (''fallback'', PRef 3), (''max_results'', PInt 5),
            (''output'', PRef 2)]"
    by (simp add: pydict_def caller_store_def)
  have s: "closed_val (length caller_store) (PRef 2)"
    by (simp add: closed_val_def caller_store_def)
  from nodes_hold_the_copies [OF caller_closed d s,
      of "PRef 0" "PStr ''gpt''" "PStr ''q''" "PRef 5"]
  obtain self ext where
    i: "init (PRef 0) (PStr ''gpt'') caller_store (PStr ''q'') (PRef 5) (PRef 4) (PRef 2) =
          Inr (self, caller_store @ ext)" and
    w: "map_of (node_config (graph_iterator_node (PRef 0) self)) ''scraper_config'' =
          Some (copy_config self)" and
    v: "node_values (merge_answers_node self) = [PStr ''gpt'', copy_schema self]" and
    n: "copy_config self \<noteq> PRef 4" and
    iso: "\<And>n g s. keeps_classes caller_store g \<Longrightarrow>
            unfold n (g @ ext @ s) (copy_config self) = unfold n caller_store (PRef 4)"
    by blast
  from i example_init have self: "self = example_self" and ext: "caller_store @ ext = example_store"
    by simp_all
  have k: "keeps_classes caller_store (caller_store[4 := PDict []])"
    by (rule keeps_classes_update) (simp_all add: caller_store_def is_class_def)
  have "example_store[4 := PDict []] = caller_store[4 := PDict []] @ ext @ []"
    unfolding ext [symmetric] by (simp add: list_update_append1 caller_store_def)
  with iso [OF k, of 3 "[]"]
  have "unfold 3 (example_store[4 := PDict []]) (copy_config self) =
      unfold 3 caller_store (PRef 4)"
    by simp
  with w v n show ?thesis
    unfolding self by simp
qed

text \<open>
  C8 as it was stated, with every node configured only from the deep copies and no
  node sharing mutable state with the caller's arguments, fails: the merge node is also
  given \<^verbatim>\<open>self.llm_model\<close> (line 85), which is none of the copies. Where the base
  class keeps the caller's language-model dictionary, the merge node of the graph holds
  that very object, an entry of the caller's configuration. And the deep copy of a
  schema that is a class is that class: the schema of the merge node is then the
  caller's schema object itself.
\<close>

theorem nodes_only_from_copies_counterexample:
  "init (PRef 0) (PRef 3) caller_store (PStr ''q'') (PRef 5) (PRef 4) (PRef 2) =
     Inr (sharing_self, example_store) \<and>
   graph sharing_self = Some (create_graph (PRef 0) sharing_self) \<and>
   merge_answers_node sharing_self \<in> set (nodes (create_graph (PRef 0) sharing_self)) \<and>
   map_of (node_config (merge_answers_node sharing_self)) ''llm_model'' = Some (PRef 3) \<and>
   PRef 3 \<noteq> copy_config sharing_self \<and>
   PRef 3 \<noteq> copy_schema sharing_self \<and>
   map_of [(''llm'', PRef 3), (''fallback'', PRef 3), (''max_results'', PInt 5),
           (''output'', PRef 2)] ''llm'' = Some (PRef 3) \<and>
   pydict caller_store (PRef 4) =
     Some [(''llm'', PRef 3), (''fallback'', PRef 3), (''max_results'', PInt 5),
           (''output'', PRef 2)] \<and>
   map_of (node_config (merge_answers_node sharing_self)) ''schema'' =
     Some (schema sharing_self) \<and>
   schema sharing_self = PRef 2 \<and>
   example_store ! 2 = PClass ''Answer'' [(''fields'', PRef 1)]"
proof -
  have "graph sharing_self = Some (create_graph (PRef 0) sharing_self)"
    using init_attributes [OF sharing_init] by simp
  moreover have
    "merge_answers_node sharing_self \<in> set (nodes (create_graph (PRef 0) sharing_self))"
    by (simp add: create_graph_def)
  moreover have "map_of (node_config (merge_answers_node sharing_self)) ''llm_model'' =
      Some (PRef 3)"
    "map_of (node_config (merge_answers_node sharing_self)) ''schema'' =
      Some (schema sharing_self)"
    "schema sharing_self = PRef 2"
    by (simp_all add: merge_answers_node_def sharing_self_def abstract_graph_init_def Let_def)
  moreover have "PRef 3 \<noteq> copy_config sharing_self" "PRef 3 \<noteq> copy_schema sharing_self"
    by (simp_all add: sharing_self_def abstract_graph_init_def Let_def)
  moreover have
    "pydict caller_store (PRef 4) =
       Some [(''llm'', PRef 3), (''fallback'', PRef 3), (''max_results'', PInt 5),
             (''output'', PRef 2)]"
    by (simp add: pydict_def caller_store_def)
  moreover have "example_store ! 2 = PClass ''Answer'' [(''fields'', PRef 1)]"
    by (simp add: example_store_def caller_store_def eval_nat_numeral)
  ultimately show ?thesis
    using sharing_init by simp
qed

end
